theory Spec2Isabelle
  imports Main
begin

chapter \<open>The model of the program\<close>

section \<open>Strings\<close>

text \<open>
  A Python \<open>str\<close> is modelled as a \<^typ>\<open>string\<close>, a list of characters, each character a
  code point below 256. An index is a position in the list, \<open>s.find(c)\<close> is the index of
  the first occurrence or \<open>-1\<close>, and \<open>s[i:j]\<close> is the slice from \<open>i\<close> up to, not
  including, \<open>j\<close>.
\<close>

definition codepoint :: "char \<Rightarrow> nat" where
  "codepoint c = of_char c"

definition find_char :: "char \<Rightarrow> string \<Rightarrow> int" where
  "find_char c s = (if c \<in> set s then int (length (takeWhile (\<lambda>x. x \<noteq> c) s)) else - 1)"

definition slice :: "string \<Rightarrow> nat \<Rightarrow> nat \<Rightarrow> string" where
  "slice s i j = take (j - i) (drop i s)"

definition starts_with :: "string \<Rightarrow> string \<Rightarrow> bool" where
  "starts_with s p \<longleftrightarrow> take (length p) s = p"

text \<open>
  \<open>str.isspace\<close>, which is also what \<open>\s\<close> matches in a \<open>str\<close> pattern and what
  \<open>str.strip()\<close> removes: tab, line feed, vertical tab, form feed, carriage return, the
  separators \<open>0x1C\<close> to \<open>0x1F\<close>, space, next line and no-break space.
\<close>

definition is_space :: "char \<Rightarrow> bool" where
  "is_space c \<longleftrightarrow>
     codepoint c \<in> {0x09, 0x0A, 0x0B, 0x0C, 0x0D, 0x1C, 0x1D, 0x1E, 0x1F, 0x20, 0x85, 0xA0}"

definition strip :: "string \<Rightarrow> string" where
  "strip s = rev (dropWhile is_space (rev (dropWhile is_space s)))"

text \<open>\<open>str.lower\<close> on this range: the ASCII capitals and the Latin-1 capitals.\<close>

definition lower_char :: "char \<Rightarrow> char" where
  "lower_char c =
     (if (0x41 \<le> codepoint c \<and> codepoint c \<le> 0x5A) \<or>
         (0xC0 \<le> codepoint c \<and> codepoint c \<le> 0xDE \<and> codepoint c \<noteq> 0xD7)
      then char_of (codepoint c + 32) else c)"

definition lower :: "string \<Rightarrow> string" where
  "lower s = map lower_char s"

definition is_digit :: "char \<Rightarrow> bool" where
  "is_digit c \<longleftrightarrow> 0x30 \<le> codepoint c \<and> codepoint c \<le> 0x39"

text \<open>Decimal numerals, as \<open>str(n)\<close> and the \<open>{n}\<close> of an f-string write an integer.\<close>

definition digit_char :: "nat \<Rightarrow> char" where
  "digit_char n = char_of (0x30 + n)"

function show_nat :: "nat \<Rightarrow> string" where
  "show_nat n = (if n < 10 then [digit_char n] else show_nat (n div 10) @ [digit_char (n mod 10)])"
  by pat_completeness auto
termination
  by (relation "measure id") auto

definition show_int :: "int \<Rightarrow> string" where
  "show_int i = (if i < 0 then CHR ''-'' # show_nat (nat (- i)) else show_nat (nat i))"

definition zfill :: "nat \<Rightarrow> string \<Rightarrow> string" where
  "zfill w s = replicate (w - length s) CHR ''0'' @ s"

section \<open>JSON values and the standard library's decoder\<close>

text \<open>
  The values \<open>json.loads\<close> returns. A decoded string is a list of code points, since a
  \<open>\uXXXX\<close> escape can name any of them. A number with a fraction or an exponent, and the
  constants \<open>NaN\<close>, \<open>Infinity\<close> and \<open>-Infinity\<close>, become a Python float, kept here as the
  numeral that was read. An object is a \<open>dict\<close>: its keys in the order of their first
  occurrence, each with the value of its last one. \<open>JNull\<close> is Python's \<open>None\<close>.
\<close>

type_synonym ustring = "nat list"

definition ustr :: "string \<Rightarrow> ustring" where
  "ustr s = map codepoint s"

datatype json =
    JNull
  | JBool bool
  | JInt int
  | JFloat string
  | JString ustring
  | JArray "json list"
  | JObject "(ustring \<times> json) list"

text \<open>
  \<open>json.loads\<close> belongs to the standard library, not to this repository. The functions of
  the repository that call it take it as their first argument \<open>loads\<close>, where
  \<open>loads s = None\<close> stands for any exception it raises, so that what is proved of them
  holds whatever the decoder does. \<open>json_loads\<close> below is the decoder itself, written from
  the grammar of \<open>json.decoder\<close> and \<open>json.scanner\<close>, for running the repository's
  functions on concrete texts. It reads the text into tokens and the tokens into a value;
  the decoder's limits on nesting depth and on the digits of an integer are left out.
\<close>

datatype token =
    TLBrace | TRBrace | TLBracket | TRBracket | TColon | TComma
  | TString ustring
  | TValue json

text \<open>The decoder's \<open>WHITESPACE\<close>: space, tab, line feed and carriage return.\<close>

definition is_ws :: "char \<Rightarrow> bool" where
  "is_ws c \<longleftrightarrow> c \<in> {CHR '' '', CHR 0x09, CHR 0x0A, CHR 0x0D}"

definition hex_val :: "char \<Rightarrow> nat option" where
  "hex_val c =
     (if 0x30 \<le> codepoint c \<and> codepoint c \<le> 0x39 then Some (codepoint c - 0x30)
      else if 0x61 \<le> codepoint c \<and> codepoint c \<le> 0x66 then Some (codepoint c - 0x61 + 10)
      else if 0x41 \<le> codepoint c \<and> codepoint c \<le> 0x46 then Some (codepoint c - 0x41 + 10)
      else None)"

fun decode_uXXXX :: "string \<Rightarrow> nat option" where
  "decode_uXXXX (a # b # c # d # rest) =
     (case (hex_val a, hex_val b, hex_val c, hex_val d) of
        (Some w, Some x, Some y, Some z) \<Rightarrow> Some (((w * 16 + x) * 16 + y) * 16 + z)
      | _ \<Rightarrow> None)"
| "decode_uXXXX _ = None"

text \<open>The decoder's \<open>BACKSLASH\<close> table: the character after a backslash and what it denotes.\<close>

definition backslash :: "char \<Rightarrow> nat option" where
  "backslash e =
     (if e = CHR 0x22 then Some 0x22
      else if e = CHR 0x5C then Some 0x5C
      else if e = CHR ''/'' then Some 0x2F
      else if e = CHR ''b'' then Some 0x08
      else if e = CHR ''f'' then Some 0x0C
      else if e = CHR ''n'' then Some 0x0A
      else if e = CHR ''r'' then Some 0x0D
      else if e = CHR ''t'' then Some 0x09
      else None)"

definition cons_chunk ::
  "nat \<Rightarrow> (ustring \<times> nat) option \<Rightarrow> nat \<Rightarrow> (ustring \<times> nat) option" where
  "cons_chunk ch r used = map_option (\<lambda>(v, n). (ch # v, n + used)) r"

text \<open>
  \<open>scanstring\<close> reads a string literal after its opening quote: the decoded string and the
  number of characters read, the closing quote included. A control character, an unknown
  escape and a missing closing quote are errors (the decoder is strict); a high surrogate
  followed by a low one is one code point.
\<close>

function scanstring :: "string \<Rightarrow> (ustring \<times> nat) option" where
  "scanstring [] = None"
| "scanstring (c # cs) =
     (if c = CHR 0x22 then Some ([], 1)
      else if c = CHR 0x5C then
        (case cs of
           [] \<Rightarrow> None
         | e # es \<Rightarrow>
             if e \<noteq> CHR ''u'' then
               (case backslash e of
                  None \<Rightarrow> None
                | Some ch \<Rightarrow> cons_chunk ch (scanstring es) 2)
             else
               (case decode_uXXXX es of
                  None \<Rightarrow> None
                | Some uni \<Rightarrow>
                    if 0xD800 \<le> uni \<and> uni \<le> 0xDBFF \<and>
                       take 2 (drop 4 es) = [CHR 0x5C, CHR ''u''] then
                      (case decode_uXXXX (drop 6 es) of
                         None \<Rightarrow> None
                       | Some uni2 \<Rightarrow>
                           if 0xDC00 \<le> uni2 \<and> uni2 \<le> 0xDFFF then
                             cons_chunk (0x10000 + ((uni - 0xD800) * 1024 + (uni2 - 0xDC00)))
                               (scanstring (drop 10 es)) 12
                           else cons_chunk uni (scanstring (drop 4 es)) 6)
                    else cons_chunk uni (scanstring (drop 4 es)) 6))
      else if codepoint c < 0x20 then None
      else cons_chunk (codepoint c) (scanstring cs) 1)"
  by pat_completeness auto
termination
  by (relation "measure length") auto

text \<open>
  The decoder's \<open>NUMBER_RE\<close>, \<open>(-?(?:0|[1-9][0-9]*))(\.[0-9]+)?([eE][-+]?[0-9]+)?\<close>, group
  by group: the text each group matches at the start of its argument.
\<close>

definition digits_val :: "string \<Rightarrow> int" where
  "digits_val ds = foldl (\<lambda>a d. 10 * a + int (codepoint d - 0x30)) 0 ds"

definition match_int :: "string \<Rightarrow> string option" where
  "match_int s =
     (let sign = (if take 1 s = ''-'' then ''-'' else '''');
          r = drop (length sign) s
      in case r of
           [] \<Rightarrow> None
         | d # ds \<Rightarrow>
             if d = CHR ''0'' then Some (sign @ ''0'')
             else if is_digit d then Some (sign @ d # takeWhile is_digit ds)
             else None)"

definition match_frac :: "string \<Rightarrow> string" where
  "match_frac s =
     (case s of
        [] \<Rightarrow> []
      | d # ds \<Rightarrow>
          if d = CHR ''.'' \<and> takeWhile is_digit ds \<noteq> [] then d # takeWhile is_digit ds
          else [])"

definition match_exp :: "string \<Rightarrow> string" where
  "match_exp s =
     (case s of
        [] \<Rightarrow> []
      | e # r \<Rightarrow>
          if e = CHR ''e'' \<or> e = CHR ''E'' then
            (let sign = (if take 1 r = ''-'' \<or> take 1 r = ''+'' then take 1 r else '''');
                 ds = takeWhile is_digit (drop (length sign) r)
             in if ds \<noteq> [] then e # sign @ ds else [])
          else [])"

definition match_number :: "string \<Rightarrow> (json \<times> nat) option" where
  "match_number s =
     (case match_int s of
        None \<Rightarrow> None
      | Some integer \<Rightarrow>
          (let frac = match_frac (drop (length integer) s);
               exp = match_exp (drop (length integer + length frac) s)
           in if frac \<noteq> [] \<or> exp \<noteq> []
              then Some (JFloat (integer @ frac @ exp),
                         length integer + length frac + length exp)
              else Some (JInt (if take 1 integer = ''-'' then - digits_val (drop 1 integer)
                               else digits_val integer), length integer)))"

text \<open>
  One token at the start of a text that does not start with whitespace, in the order in
  which the scanner tries the alternatives, and the number of characters it takes.
\<close>

definition scan_atom :: "string \<Rightarrow> (token \<times> nat) option" where
  "scan_atom s =
     (case s of
        [] \<Rightarrow> None
      | c # cs \<Rightarrow>
          if c = CHR 0x22 then map_option (\<lambda>(v, n). (TString v, n + 1)) (scanstring cs)
          else if c = CHR ''{'' then Some (TLBrace, 1)
          else if c = CHR ''['' then Some (TLBracket, 1)
          else if c = CHR ''n'' \<and> starts_with s ''null'' then Some (TValue JNull, 4)
          else if c = CHR ''t'' \<and> starts_with s ''true'' then Some (TValue (JBool True), 4)
          else if c = CHR ''f'' \<and> starts_with s ''false'' then Some (TValue (JBool False), 5)
          else (case match_number s of
                  Some (v, n) \<Rightarrow> Some (TValue v, n)
                | None \<Rightarrow>
                    if c = CHR ''N'' \<and> starts_with s ''NaN''
                      then Some (TValue (JFloat ''NaN''), 3)
                    else if c = CHR ''I'' \<and> starts_with s ''Infinity''
                      then Some (TValue (JFloat ''Infinity''), 8)
                    else if c = CHR ''-'' \<and> starts_with s ''-Infinity''
                      then Some (TValue (JFloat ''-Infinity''), 9)
                    else if c = CHR ''}'' then Some (TRBrace, 1)
                    else if c = CHR '']'' then Some (TRBracket, 1)
                    else if c = CHR '':'' then Some (TColon, 1)
                    else if c = CHR '','' then Some (TComma, 1)
                    else None))"

function tokenize :: "string \<Rightarrow> token list option" where
  "tokenize [] = Some []"
| "tokenize (c # cs) =
     (if is_ws c then tokenize cs
      else (case scan_atom (c # cs) of
              None \<Rightarrow> None
            | Some (t, n) \<Rightarrow> map_option ((#) t) (tokenize (drop (n - 1) cs))))"
  by pat_completeness auto
termination
  by (relation "measure length") auto

text \<open>
  The tokens are read with a stack of the arrays and objects that are still open. The
  mode says what may come next: a value, a value or \<open>]\<close> right after \<open>[\<close>, a key or \<open>}\<close>
  right after \<open>{\<close>, a key after a comma, the colon after a key, and a comma or the
  closing bracket after a value. So a trailing comma, a missing colon and text after the
  value are errors, as they are for the decoder.
\<close>

datatype container = CArray "json list" | CObject "(ustring \<times> json) list" "ustring option"

datatype mode = MValue | MValueOrEnd | MKeyOrEnd | MKey | MColon | MNext | MDone json

fun dict_set :: "(ustring \<times> json) list \<Rightarrow> ustring \<Rightarrow> json \<Rightarrow> (ustring \<times> json) list" where
  "dict_set [] k v = [(k, v)]"
| "dict_set ((k', v') # ps) k v =
     (if k' = k then (k', v) # ps else (k', v') # dict_set ps k v)"

fun finish_value :: "json \<Rightarrow> container list \<Rightarrow> (mode \<times> container list) option" where
  "finish_value v [] = Some (MDone v, [])"
| "finish_value v (CArray xs # st) = Some (MNext, CArray (xs @ [v]) # st)"
| "finish_value v (CObject ps (Some k) # st) = Some (MNext, CObject (dict_set ps k v) None # st)"
| "finish_value v (CObject ps None # st) = None"

fun start_value :: "token \<Rightarrow> container list \<Rightarrow> (mode \<times> container list) option" where
  "start_value (TValue v) st = finish_value v st"
| "start_value (TString s) st = finish_value (JString s) st"
| "start_value TLBracket st = Some (MValueOrEnd, CArray [] # st)"
| "start_value TLBrace st = Some (MKeyOrEnd, CObject [] None # st)"
| "start_value _ st = None"

fun start_key :: "token \<Rightarrow> container list \<Rightarrow> (mode \<times> container list) option" where
  "start_key (TString k) (CObject ps None # st) = Some (MColon, CObject ps (Some k) # st)"
| "start_key _ _ = None"

fun parse_step :: "mode \<Rightarrow> container list \<Rightarrow> token \<Rightarrow> (mode \<times> container list) option" where
  "parse_step MValue st t = start_value t st"
| "parse_step MValueOrEnd (CArray xs # st) TRBracket = finish_value (JArray xs) st"
| "parse_step MValueOrEnd st t = start_value t st"
| "parse_step MKeyOrEnd (CObject ps None # st) TRBrace = finish_value (JObject ps) st"
| "parse_step MKeyOrEnd st t = start_key t st"
| "parse_step MKey st t = start_key t st"
| "parse_step MColon st TColon = Some (MValue, st)"
| "parse_step MNext (CArray xs # st) TComma = Some (MValue, CArray xs # st)"
| "parse_step MNext (CArray xs # st) TRBracket = finish_value (JArray xs) st"
| "parse_step MNext (CObject ps None # st) TComma = Some (MKey, CObject ps None # st)"
| "parse_step MNext (CObject ps None # st) TRBrace = finish_value (JObject ps) st"
| "parse_step _ _ _ = None"

fun parse_tokens :: "mode \<Rightarrow> container list \<Rightarrow> token list \<Rightarrow> json option" where
  "parse_tokens (MDone v) st [] = Some v"
| "parse_tokens m st [] = None"
| "parse_tokens m st (t # ts) =
     (case parse_step m st t of None \<Rightarrow> None | Some (m', st') \<Rightarrow> parse_tokens m' st' ts)"

definition json_loads :: "string \<Rightarrow> json option" where
  "json_loads s = (case tokenize s of None \<Rightarrow> None | Some ts \<Rightarrow> parse_tokens MValue [] ts)"

section \<open>The command-line tool: recovering JSON from the reply\<close>

text \<open>
  \<open>_balanced_json_block\<close>: from the first \<open>{\<close>, the loop walks the indices of the text with
  a depth counter and returns the slice that ends where the depth comes back to zero.
\<close>

function block_loop :: "string \<Rightarrow> nat \<Rightarrow> nat \<Rightarrow> int \<Rightarrow> string option" where
  "block_loop s start i depth =
     (if i < length s then
        (if s ! i = CHR ''{'' then block_loop s start (i + 1) (depth + 1)
         else if s ! i = CHR ''}'' then
           (if depth - 1 = 0 then Some (slice s start (i + 1))
            else block_loop s start (i + 1) (depth - 1))
         else block_loop s start (i + 1) depth)
      else None)"
  by pat_completeness auto
termination
  by (relation "measure (\<lambda>(s, start, i, depth). length s - i)") auto

definition balanced_json_block :: "string \<Rightarrow> string option" where
  "balanced_json_block s =
     (let start = find_char CHR ''{'' s
      in if start = - 1 then None else block_loop s (nat start) (nat start) 0)"

text \<open>
  The search \<open>re.search(r"```(?:json)?\s*(\{.*?\})\s*```", text, re.DOTALL | re.IGNORECASE)\<close>
  and its group 1. At a given start the match is forced: after the three backquotes the
  word \<open>json\<close> is taken in any case of its letters if it is there, then all the whitespace
  (what follows must be \<open>{\<close>, which is neither), and the lazy \<open>.*?\<close>, which matches line
  breaks too, stops at the first \<open>}\<close> that whitespace and three backquotes follow. The
  search takes the leftmost start that matches.
\<close>

fun lazy_body :: "string \<Rightarrow> string \<Rightarrow> string option" where
  "lazy_body acc [] = None"
| "lazy_body acc (c # cs) =
     (if c = CHR ''}'' \<and> starts_with (dropWhile is_space cs) ''```'' then Some (acc @ [c])
      else lazy_body (acc @ [c]) cs)"

definition fence_match_at :: "string \<Rightarrow> string option" where
  "fence_match_at s =
     (if starts_with s ''```'' then
        (let r1 = drop 3 s;
             r2 = (if lower (take 4 r1) = ''json'' then drop 4 r1 else r1);
             r3 = dropWhile is_space r2
         in case r3 of
              [] \<Rightarrow> None
            | c # cs \<Rightarrow> if c = CHR ''{'' then lazy_body [c] cs else None)
      else None)"

fun fence_search :: "string \<Rightarrow> string option" where
  "fence_search [] = None"
| "fence_search (c # cs) =
     (case fence_match_at (c # cs) of Some g \<Rightarrow> Some g | None \<Rightarrow> fence_search cs)"

text \<open>
  \<open>parse_json_or_raise\<close>. An exception of \<open>json.loads\<close> is kept with the document it was
  raised for; the function's own \<open>ValueError\<close> carries its message. The traced version
  also lists the recoveries in the order in which the function tries them: the direct
  decoding, the balanced block (with the block) and the fenced code (with what the search
  found). \<open>if block:\<close> is Python's truth test: a block that is \<open>None\<close> or empty is skipped.
\<close>

datatype error = JSONDecodeError string | ValueError string

datatype attempt = Direct | BalancedBlock string | FencedCode "string option"

definition truthy :: "string option \<Rightarrow> string option" where
  "truthy b = (case b of Some (c # cs) \<Rightarrow> Some (c # cs) | _ \<Rightarrow> None)"

definition parse_json_traced ::
  "(string \<Rightarrow> json option) \<Rightarrow> string \<Rightarrow> attempt list \<times> (error + json)" where
  "parse_json_traced loads text =
     (case loads text of
        Some v \<Rightarrow> ([Direct], Inr v)
      | None \<Rightarrow>
          (case truthy (balanced_json_block text) of
             Some block \<Rightarrow>
               ([Direct, BalancedBlock block],
                case loads block of Some v \<Rightarrow> Inr v | None \<Rightarrow> Inl (JSONDecodeError block))
           | None \<Rightarrow>
               (let m = fence_search text
                in ([Direct, FencedCode m],
                    case m of
                      Some g \<Rightarrow>
                        (case loads g of Some v \<Rightarrow> Inr v | None \<Rightarrow> Inl (JSONDecodeError g))
                    | None \<Rightarrow>
                        Inl (ValueError ''Could not parse JSON from model output.'')))))"

definition parse_json_or_raise :: "(string \<Rightarrow> json option) \<Rightarrow> string \<Rightarrow> error + json" where
  "parse_json_or_raise loads text = snd (parse_json_traced loads text)"

section \<open>The command-line tool: saving results\<close>

text \<open>
  \<open>datetime.datetime.now()\<close> is a reading of the clock. \<open>strftime("%Y-%m-%d_%H-%M-%S")\<close>
  writes the month, day, hour, minute and second on two digits each, and the year as
  glibc's \<open>%Y\<close> does, with the digits it has and no padding (another C library may pad
  a year below 1000 with zeros; from the year 1000 on all agree). \<open>valid_datetime\<close> is a
  reading with a year of four digits, as the clock gives today.
\<close>

record datetime =
  year :: nat
  month :: nat
  day :: nat
  hour :: nat
  minute :: nat
  second :: nat

definition valid_datetime :: "datetime \<Rightarrow> bool" where
  "valid_datetime d \<longleftrightarrow>
     1000 \<le> year d \<and> year d \<le> 9999 \<and> 1 \<le> month d \<and> month d \<le> 12 \<and>
     1 \<le> day d \<and> day d \<le> 31 \<and> hour d < 24 \<and> minute d < 60 \<and> second d < 60"

definition strftime :: "datetime \<Rightarrow> string" where
  "strftime d =
     show_nat (year d) @ ''-'' @ zfill 2 (show_nat (month d)) @ ''-'' @
     zfill 2 (show_nat (day d)) @ ''_'' @ zfill 2 (show_nat (hour d)) @ ''-'' @
     zfill 2 (show_nat (minute d)) @ ''-'' @ zfill 2 (show_nat (second d))"

definition timestamped_name :: "datetime \<Rightarrow> string \<Rightarrow> string \<Rightarrow> string" where
  "timestamped_name now base ext = base @ ''_'' @ strftime now @ ''.'' @ ext"

text \<open>
  What the tool does to the world: the files it writes, in the order of the writes (each
  with its path; \<open>open(path, "w")\<close> replaces what was at the path), the lines it prints,
  the requests it sends to the model, and how many times it has read the clock. A file
  holds the \<open>json.dump\<close> of a value (\<open>ensure_ascii=False, indent=2\<close>), or the beginning
  of that dump, or a text as it is. Opening a file and printing are taken to succeed.

  The files are written in UTF-8, which has no encoding for the surrogate code points
  \<open>0xD800\<close> to \<open>0xDFFF\<close>. \<open>json.loads\<close> accepts a lone surrogate escape, and
  \<open>json.dump\<close> with \<open>ensure_ascii=False\<close> writes the strings of the value as they are: for
  a value with such a code point in one of its strings or keys the write raises
  \<open>UnicodeEncodeError\<close>, and the file keeps the part of the dump that came before that
  string. A text of the model is a \<^typ>\<open>string\<close> and has no such code point.
\<close>

datatype content = JsonDoc json | DumpPrefix json | RawText string

definition no_surrogate :: "ustring \<Rightarrow> bool" where
  "no_surrogate s \<longleftrightarrow> list_all (\<lambda>c. \<not> (0xD800 \<le> c \<and> c \<le> 0xDFFF)) s"

fun encodable :: "json \<Rightarrow> bool" where
  "encodable (JString s) = no_surrogate s"
| "encodable (JArray xs) = list_all encodable xs"
| "encodable (JObject ps) = list_all (\<lambda>p. no_surrogate (fst p) \<and> encodable (snd p)) ps"
| "encodable _ = True"

datatype request =
    CallModel string string nat
  | ContinueIfTruncated string string string nat

record world =
  written :: "(string \<times> content) list"
  stdout :: "string list"
  requests :: "request list"
  ticks :: nat

definition print :: "string \<Rightarrow> world \<Rightarrow> world" where
  "print line w = w\<lparr>stdout := stdout w @ [line]\<rparr>"

text \<open>
  \<open>save_json\<close> returns the path (\<open>Inr\<close>), or the name of the exception that leaves it
  (\<open>Inl\<close>).
\<close>

definition save_json ::
  "(nat \<Rightarrow> datetime) \<Rightarrow> json \<Rightarrow> string \<Rightarrow> world \<Rightarrow> (string + string) \<times> world" where
  "save_json clock payload base_name w =
     (let path = timestamped_name (clock (ticks w)) base_name ''json''
      in if encodable payload then
           (Inr path,
            w\<lparr>written := written w @ [(path, JsonDoc payload)], ticks := ticks w + 1\<rparr>)
         else
           (Inl ''UnicodeEncodeError'',
            w\<lparr>written := written w @ [(path, DumpPrefix payload)], ticks := ticks w + 1\<rparr>))"

definition save_raw_text ::
  "(nat \<Rightarrow> datetime) \<Rightarrow> string \<Rightarrow> string \<Rightarrow> world \<Rightarrow> string \<times> world" where
  "save_raw_text clock text base_name w =
     (let path = timestamped_name (clock (ticks w)) base_name ''txt''
      in (path, w\<lparr>written := written w @ [(path, RawText text)], ticks := ticks w + 1\<rparr>))"

section \<open>The command-line tool: reading the audio file\<close>

text \<open>
  The file system as the tool reads it: at a path there is nothing, a file with its bytes
  (a byte is a \<^typ>\<open>char\<close>), or a directory. \<open>pathlib\<close>'s \<open>suffix\<close> is taken from the
  last component of the path (empty components and \<open>.\<close> do not count): the part from its
  last dot on, unless that dot is the first or the last character of the name.
\<close>

datatype node = File "char list" | Directory

fun split_on :: "char \<Rightarrow> string \<Rightarrow> string list" where
  "split_on sep [] = [[]]"
| "split_on sep (c # cs) =
     (if c = sep then [] # split_on sep cs
      else (case split_on sep cs of [] \<Rightarrow> [[c]] | p # ps \<Rightarrow> (c # p) # ps))"

definition path_name :: "string \<Rightarrow> string" where
  "path_name p =
     (let parts = filter (\<lambda>c. c \<noteq> [] \<and> c \<noteq> ''.'') (split_on CHR ''/'' p)
      in if parts = [] then [] else last parts)"

definition rfind_char :: "char \<Rightarrow> string \<Rightarrow> int" where
  "rfind_char c s =
     (if c \<in> set s then int (length s) - 1 - int (length (takeWhile (\<lambda>x. x \<noteq> c) (rev s)))
      else - 1)"

definition suffix :: "string \<Rightarrow> string" where
  "suffix p =
     (let name = path_name p; i = rfind_char CHR ''.'' name
      in if 0 < i \<and> i < int (length name) - 1 then drop (nat i) name else [])"

definition lstrip_dots :: "string \<Rightarrow> string" where
  "lstrip_dots s = dropWhile (\<lambda>c. c = CHR ''.'') s"

text \<open>\<open>base64.b64encode\<close>: three bytes become four characters of the alphabet, padded with \<open>=\<close>.\<close>

definition b64_alphabet :: string where
  "b64_alphabet = ''ABCDEFGHIJKLMNOPQRSTUVWXYZabcdefghijklmnopqrstuvwxyz0123456789+/''"

definition b64_char :: "nat \<Rightarrow> char" where
  "b64_char n = b64_alphabet ! (n mod 64)"

fun b64encode :: "char list \<Rightarrow> string" where
  "b64encode [] = []"
| "b64encode [a] =
     [b64_char (codepoint a div 4), b64_char (codepoint a mod 4 * 16), CHR ''='', CHR ''='']"
| "b64encode [a, b] =
     [b64_char (codepoint a div 4),
      b64_char (codepoint a mod 4 * 16 + codepoint b div 16),
      b64_char (codepoint b mod 16 * 4), CHR ''='']"
| "b64encode (a # b # c # rest) =
     [b64_char (codepoint a div 4),
      b64_char (codepoint a mod 4 * 16 + codepoint b div 16),
      b64_char (codepoint b mod 16 * 4 + codepoint c div 64),
      b64_char (codepoint c mod 64)] @ b64encode rest"

text \<open>
  How a run ends: it runs to its last line, it calls \<open>sys.exit\<close> with a message (printed
  on the error stream, status 1) or with a status, or an exception nobody catches ends it
  (a traceback, status 1).
\<close>

datatype exit_arg = Message string | Status int

datatype outcome = Finished | SysExit exit_arg | Uncaught string


record response =
  finish_reason :: string
  reply_text :: string

text \<open>
  What a run finds around it: the environment variables, the file system, how the
  operating system resolves a path to an absolute one, the model's reply to each request
  (\<open>reply_text\<close> is what \<open>extract_text_from_response\<close> gives for it), and the clock at each
  reading.
\<close>

record env =
  environ :: "string \<rightharpoonup> string"
  fs :: "string \<rightharpoonup> node"
  resolve :: "string \<Rightarrow> string"
  api :: "request \<Rightarrow> response"
  clock :: "nat \<Rightarrow> datetime"

definition encode_audio_for_api :: "env \<Rightarrow> string \<Rightarrow> outcome + string \<times> string" where
  "encode_audio_for_api e path =
     (if fs e path = None
        then Inl (SysExit (Message (''[!] Audio file not found: '' @ resolve e path)))
      else
        (let fmt = lstrip_dots (lower (suffix path))
         in if fmt \<notin> {''wav'', ''mp3''}
              then Inl (SysExit (Message ''[!] Use a .wav or .mp3 file for input_audio.''))
            else
              (case fs e path of
                 Some (File data) \<Rightarrow> Inr (fmt, b64encode data)
               | Some Directory \<Rightarrow> Inl (Uncaught ''IsADirectoryError'')
               | None \<Rightarrow> Inl (Uncaught ''FileNotFoundError''))))"

section \<open>The command-line tool: the main program\<close>

definition AUDIO_PATH :: string where
  "AUDIO_PATH = ''sample.wav''"

definition MAX_TOKENS_PRIMARY :: nat where
  "MAX_TOKENS_PRIMARY = 8000"

definition MAX_TOKENS_CONTINUE :: nat where
  "MAX_TOKENS_CONTINUE = 9000"

definition initial_world :: world where
  "initial_world = \<lparr>written = [], stdout = [], requests = [], ticks = 0\<rparr>"

definition call_model :: "env \<Rightarrow> string \<Rightarrow> string \<Rightarrow> nat \<Rightarrow> world \<Rightarrow> response \<times> world" where
  "call_model e fmt b64 max_tokens w =
     (api e (CallModel fmt b64 max_tokens),
      w\<lparr>requests := requests w @ [CallModel fmt b64 max_tokens]\<rparr>)"

definition continue_if_truncated ::
  "env \<Rightarrow> string \<Rightarrow> string \<Rightarrow> string \<Rightarrow> nat \<Rightarrow> world \<Rightarrow> response \<times> world" where
  "continue_if_truncated e fmt b64 partial_text max_tokens w =
     (api e (ContinueIfTruncated fmt b64 partial_text max_tokens),
      w\<lparr>requests := requests w @ [ContinueIfTruncated fmt b64 partial_text max_tokens]\<rparr>)"

text \<open>
  Lines 271 to 279: the result is saved as JSON and a preview is printed. Nothing catches
  an exception of \<open>save_json\<close>: it ends the run.
\<close>

definition save_and_preview :: "env \<Rightarrow> json \<Rightarrow> string \<Rightarrow> string \<Rightarrow> world \<Rightarrow> outcome \<times> world" where
  "save_and_preview e parsed text finish w =
     (case save_json (clock e) parsed ''analysis_result'' w of
        (Inl exception, w1) \<Rightarrow> (Uncaught exception, w1)
      | (Inr json_path, w1) \<Rightarrow>
          (let w2 = print (CHR 0x0A # ''Saved JSON to: '' @ json_path) w1;
               w3 = print (CHR 0x0A # ''[debug] finish_reason (first call): '' @ finish) w2;
               preview = strip text;
               w4 = print (CHR 0x0A # ''Model analysis (truncated preview):'') w3;
               w5 = print (take 1200 preview @ '' '' @
                             (if length preview > 1200 then ''...'' else '''')) w4
           in (Finished, w5)))"

text \<open>
  The main program. \<open>parsed\<close> starts as \<open>None\<close>, which is \<open>JNull\<close>, and keeps that value when
  the first parse raises; the test \<open>parsed is None or finish == "length"\<close> decides on the
  one continuation request.
\<close>

definition main :: "(string \<Rightarrow> json option) \<Rightarrow> env \<Rightarrow> outcome \<times> world" where
  "main loads e =
     (if environ e ''OPENAI_API_KEY'' = None \<or> environ e ''OPENAI_API_KEY'' = Some []
        then (SysExit (Message ''[!] OPENAI_API_KEY is not set for this shell/session.''),
              initial_world)
      else
        (case encode_audio_for_api e AUDIO_PATH of
           Inl stop \<Rightarrow> (stop, initial_world)
         | Inr (fmt, b64) \<Rightarrow>
             (let (resp, w1) = call_model e fmt b64 MAX_TOKENS_PRIMARY initial_world;
                  finish = finish_reason resp;
                  text = reply_text resp;
                  (parsed, w2) =
                    (case parse_json_or_raise loads text of
                       Inr v \<Rightarrow> (v, w1)
                     | Inl err \<Rightarrow>
                         (let (raw_path, w) = save_raw_text (clock e) text ''analysis_result_raw'' w1
                          in (JNull, print (''[i] Saved partial raw output to: '' @ raw_path) w)))
              in if parsed = JNull \<or> finish = ''length'' then
                   (let w3 = print ''[info] Attempting continuation to complete JSON...'' w2;
                        (resp2, w4) =
                          continue_if_truncated e fmt b64 text MAX_TOKENS_CONTINUE w3;
                        text2 = reply_text resp2
                    in case parse_json_or_raise loads text2 of
                         Inr v2 \<Rightarrow>
                           save_and_preview e v2 text2 finish
                             (if finish_reason resp2 = ''length''
                              then print (''[warning] Continuation was also cut off (length). ''
                                     @ ''Consider increasing MAX_TOKENS_CONTINUE or tightening output.'') w4
                              else w4)
                       | Inl err \<Rightarrow>
                           (let (raw2_path, w5) =
                                  save_raw_text (clock e) text2 ''analysis_result_raw_continuation'' w4;
                                w6 = print ''[!] Could not parse JSON even after continuation.'' w5;
                                w7 = print (''[i] Raw continuation saved to: '' @ raw2_path) w6
                            in (SysExit (Status 1), w7)))
                 else save_and_preview e parsed text finish w2)))"

section \<open>The desktop GUI\<close>

text \<open>
  The fields of \<open>AnalyzerGUI\<close> that the callbacks read and write, the contents of two
  widgets (the state of the Run button and the text of the log), the message boxes shown,
  and the delays of the pending \<open>root.after\<close> calls, all of which name \<open>_poll_queue\<close>. A
  message on the queue is a line, or \<open>None\<close>, the end-of-output sentinel.
\<close>

datatype widget_state = Normal | Disabled

datatype dialog = ShowError string string | ShowWarning string string

record gui =
  audio_path :: "string option"
  running :: bool
  run_button :: widget_state
  selected_file_var :: string
  log_text :: string
  output_queue :: "string option list"
  after_timers :: "nat list"
  dialogs :: "dialog list"

definition RUN_SCRIPT :: "string \<Rightarrow> string" where
  "RUN_SCRIPT base_dir = base_dir @ ''/run.py''"

definition init_gui :: gui where
  "init_gui =
     \<lparr>audio_path = None, running = False, run_button = Disabled,
      selected_file_var = ''No file selected'', log_text = [], output_queue = [],
      after_timers = [100], dialogs = []\<rparr>"

text \<open>\<open>select_file\<close>: \<open>path\<close> is what the file dialog returns, empty when it is cancelled.\<close>

definition select_file :: "string \<Rightarrow> gui \<Rightarrow> gui" where
  "select_file path g =
     (if path \<noteq> [] then
        g\<lparr>audio_path := Some path, selected_file_var := path, run_button := Normal\<rparr>
      else g)"

text \<open>
  \<open>run_analysis\<close>: \<open>exists\<close> tells which paths exist at the time of the click. The result
  says whether the worker thread was started.
\<close>

definition run_analysis :: "(string \<Rightarrow> bool) \<Rightarrow> string \<Rightarrow> gui \<Rightarrow> gui \<times> bool" where
  "run_analysis exists base_dir g =
     (if \<not> exists (RUN_SCRIPT base_dir) then
        (g\<lparr>dialogs := dialogs g @
             [ShowError ''Missing Script'' (''Could not find run.py at '' @ RUN_SCRIPT base_dir)]\<rparr>,
         False)
      else if audio_path g = None \<or> audio_path g = Some [] then
        (g\<lparr>dialogs := dialogs g @
             [ShowWarning ''No Audio'' ''Please select an audio file first.'']\<rparr>,
         False)
      else if running g then (g, False)
      else if \<not> exists (the (audio_path g)) then
        (g\<lparr>dialogs := dialogs g @
             [ShowError ''File Missing'' ''The selected audio file no longer exists.'']\<rparr>,
         False)
      else (g\<lparr>log_text := [], running := True, run_button := Disabled\<rparr>, True))"

text \<open>
  \<open>_run_process\<close>, the worker thread: the command it hands to \<open>Popen\<close>, and the messages it
  puts on the queue, in order, for each way the call and the reading of the pipe can go.
  \<open>Popen\<close> raises \<open>FileNotFoundError\<close> (\<open>InterpreterNotFound\<close>): the worker puts its
  message and the sentinel. \<open>Popen\<close> raises another exception, such as
  \<open>PermissionError\<close> (\<open>PopenFailed\<close>): nothing catches it, and the thread ends having put
  nothing. The child runs, writes lines that decode as text, and exits with a code
  (\<open>Child\<close>): the worker puts the lines, the finished line and the sentinel. The child
  writes lines and then bytes that do not decode as text (\<open>ReadFailed lines n\<close>): the
  pipe is read in blocks, and the worker has put the first \<open>n\<close> of the lines when the
  \<open>UnicodeDecodeError\<close> leaves the loop over \<open>process.stdout\<close> and ends the thread, with
  no finished line and no sentinel.
\<close>

datatype popen =
    InterpreterNotFound
  | PopenFailed
  | Child "string list" int
  | ReadFailed "string list" nat

definition run_process_cmd :: "string \<Rightarrow> gui \<Rightarrow> string option list" where
  "run_process_cmd sys_executable g =
     [Some sys_executable, Some ''run.py'', Some ''--audio'', audio_path g]"

definition finished_line :: "int \<Rightarrow> string" where
  "finished_line return_code =
     CHR 0x0A # ''[process] Finished with exit code '' @ show_int return_code @ [CHR 0x0A]"

fun run_process_puts :: "popen \<Rightarrow> string option list" where
  "run_process_puts InterpreterNotFound =
     [Some (''Failed to start python interpreter.'' @ [CHR 0x0A]), None]"
| "run_process_puts PopenFailed = []"
| "run_process_puts (Child lines return_code) =
     map Some lines @ [Some (finished_line return_code), None]"
| "run_process_puts (ReadFailed lines n) = map Some (take n lines)"

text \<open>
  \<open>_poll_queue\<close>. One pass through the body of \<open>while True\<close> takes a message: with an empty
  queue \<open>get_nowait\<close> raises \<open>queue.Empty\<close> and the loop is left, the sentinel clears the
  flag, enables the button and leaves the loop, and a line goes to the end of the log. The
  \<open>finally\<close> clause then asks for the next poll in 100 ms.
\<close>

definition poll_iteration :: "gui \<Rightarrow> gui \<times> bool" where
  "poll_iteration g =
     (case output_queue g of
        [] \<Rightarrow> (g, False)
      | None # rest \<Rightarrow> (g\<lparr>output_queue := rest, running := False, run_button := Normal\<rparr>, False)
      | Some message # rest \<Rightarrow>
          (g\<lparr>output_queue := rest, log_text := log_text g @ message\<rparr>, True))"

definition reschedule :: "gui \<Rightarrow> gui" where
  "reschedule g = g\<lparr>after_timers := after_timers g @ [100]\<rparr>"

function poll_loop :: "gui \<Rightarrow> gui" where
  "poll_loop g = (case poll_iteration g of (g', True) \<Rightarrow> poll_loop g' | (g', False) \<Rightarrow> g')"
  by pat_completeness auto
termination
  by (relation "measure (\<lambda>g. length (output_queue g))")
     (auto simp: poll_iteration_def split: list.splits option.splits)

definition poll_queue :: "gui \<Rightarrow> gui" where
  "poll_queue g = reschedule (poll_loop g)"

text \<open>
  The GUI thread and the worker threads together. The GUI thread runs one callback at a
  time; inside \<open>_poll_queue\<close> (\<open>in_poll\<close>) it takes one message per step, so that a worker
  can put messages on the queue while the poll is going on. A worker has been started and
  has not yet called \<open>Popen\<close>, or it has and still has messages to put; a worker with
  nothing more to put is gone. \<open>spawned\<close> lists the commands handed to \<open>Popen\<close> and
  \<open>last_run\<close> is how the latest one went.
\<close>

datatype worker = Starting | Streaming "string option list"

record system =
  ui :: gui
  in_poll :: bool
  workers :: "worker list"
  spawned :: "string option list list"
  last_run :: "popen option"

definition init_system :: system where
  "init_system = \<lparr>ui = init_gui, in_poll = False, workers = [], spawned = [], last_run = None\<rparr>"

definition click_run :: "(string \<Rightarrow> bool) \<Rightarrow> string \<Rightarrow> system \<Rightarrow> system" where
  "click_run exists base_dir s =
     (let (g, started) = run_analysis exists base_dir (ui s)
      in s\<lparr>ui := g, workers := workers s @ (if started then [Starting] else [])\<rparr>)"

definition put :: "string option \<Rightarrow> gui \<Rightarrow> gui" where
  "put m g = g\<lparr>output_queue := output_queue g @ [m]\<rparr>"

definition poll_step :: "system \<Rightarrow> system" where
  "poll_step s =
     (let (g, again) = poll_iteration (ui s)
      in if again then s\<lparr>ui := g\<rparr> else s\<lparr>ui := reschedule g, in_poll := False\<rparr>)"

inductive step :: "string \<Rightarrow> string \<Rightarrow> system \<Rightarrow> system \<Rightarrow> bool"
  for sys_executable base_dir :: string where
  user_selects:
    "\<not> in_poll s \<Longrightarrow> step sys_executable base_dir s (s\<lparr>ui := select_file path (ui s)\<rparr>)"
| user_clicks_run:
    "\<not> in_poll s \<Longrightarrow> step sys_executable base_dir s (click_run exists base_dir s)"
| timer_fires:
    "\<not> in_poll s \<Longrightarrow> after_timers (ui s) = d # ds \<Longrightarrow>
     step sys_executable base_dir s (s\<lparr>ui := (ui s)\<lparr>after_timers := ds\<rparr>, in_poll := True\<rparr>)"
| poll_takes:
    "in_poll s \<Longrightarrow> step sys_executable base_dir s (poll_step s)"
| worker_spawns:
    "workers s = ws @ Starting # ws' \<Longrightarrow>
     step sys_executable base_dir s
       (s\<lparr>workers := ws @ (if run_process_puts result = [] then []
                              else [Streaming (run_process_puts result)]) @ ws',
          spawned := spawned s @ [run_process_cmd sys_executable (ui s)],
          last_run := Some result\<rparr>)"
| worker_puts:
    "workers s = ws @ Streaming (m # ms) # ws' \<Longrightarrow>
     step sys_executable base_dir s
       (s\<lparr>ui := put m (ui s),
          workers := ws @ (if ms = [] then [] else [Streaming ms]) @ ws'\<rparr>)"

inductive reachable :: "string \<Rightarrow> string \<Rightarrow> system \<Rightarrow> bool"
  for sys_executable base_dir :: string where
  start: "reachable sys_executable base_dir init_system"
| after_step:
    "reachable sys_executable base_dir s \<Longrightarrow> step sys_executable base_dir s s' \<Longrightarrow>
     reachable sys_executable base_dir s'"

section \<open>Notions used in the proofs\<close>

text \<open>
  The balance of a text is the number of its \<open>{\<close> minus the number of its \<open>}\<close>;
  \<open>from_first_brace\<close> is the text from its first \<open>{\<close> on; \<open>scan\<close> is the loop of
  \<open>_balanced_json_block\<close> on the rest of the text, counting the characters it reads.
\<close>

definition bal :: "string \<Rightarrow> int" where
  "bal xs = int (count_list xs CHR ''{'') - int (count_list xs CHR ''}'')"

definition from_first_brace :: "string \<Rightarrow> string" where
  "from_first_brace s = dropWhile (\<lambda>c. c \<noteq> CHR ''{'') s"

fun scan :: "int \<Rightarrow> string \<Rightarrow> nat option" where
  "scan d [] = None"
| "scan d (c # cs) =
     (if c = CHR ''{'' then map_option Suc (scan (d + 1) cs)
      else if c = CHR ''}'' then (if d - 1 = 0 then Some 1 else map_option Suc (scan (d - 1) cs))
      else map_option Suc (scan d cs))"

text \<open>
  The text of the lines among some messages, and what a run writes to the log in all.
\<close>

definition lines_of :: "string option list \<Rightarrow> string" where
  "lines_of ms = concat (map (\<lambda>m. case m of Some l \<Rightarrow> l | None \<Rightarrow> []) ms)"

definition transcript :: "popen \<Rightarrow> string" where
  "transcript result = lines_of (run_process_puts result)"

text \<open>
  The invariant of the GUI and its workers. Outside a poll exactly one call of
  \<open>_poll_queue\<close> is pending, 100 ms ahead. There is no worker, and then either the flag is
  clear and the queue empty, or the flag is set and the queue holds no sentinel but
  possibly its last message; or there is one worker that has not called \<open>Popen\<close> yet, the
  log being cleared and the queue empty; or there is one worker with messages to put, no
  sentinel among them but possibly the last, the queue holding none. In each case the
  log, the lines on the queue and the lines the worker has still to put make up the text
  of the latest run.
\<close>

definition sentinel_at_end_only :: "string option list \<Rightarrow> bool" where
  "sentinel_at_end_only ms \<longleftrightarrow> None \<notin> set (butlast ms)"

definition unsent :: "worker list \<Rightarrow> string option list" where
  "unsent ws = concat (map (\<lambda>w. case w of Starting \<Rightarrow> [] | Streaming ps \<Rightarrow> ps) ws)"

definition expected_log :: "system \<Rightarrow> string" where
  "expected_log s = (case last_run s of None \<Rightarrow> [] | Some r \<Rightarrow> transcript r)"

definition consistent :: "system \<Rightarrow> bool" where
  "consistent s \<longleftrightarrow>
     after_timers (ui s) = (if in_poll s then [] else [100]) \<and>
     (case workers s of
        [] \<Rightarrow>
          (if running (ui s) then sentinel_at_end_only (output_queue (ui s))
           else output_queue (ui s) = []) \<and>
          log_text (ui s) @ lines_of (output_queue (ui s)) = expected_log s
      | [Starting] \<Rightarrow>
          running (ui s) \<and> output_queue (ui s) = [] \<and> log_text (ui s) = []
      | [Streaming ps] \<Rightarrow>
          running (ui s) \<and> None \<notin> set (output_queue (ui s)) \<and> ps \<noteq> [] \<and>
          sentinel_at_end_only ps \<and>
          log_text (ui s) @ lines_of (output_queue (ui s)) @ lines_of ps = expected_log s
      | _ \<Rightarrow> False)"

text \<open>
  What a worker that is starting needs, and what every command handed to \<open>Popen\<close> is.
\<close>

definition spawn_ok :: "string \<Rightarrow> system \<Rightarrow> bool" where
  "spawn_ok sys_executable s \<longleftrightarrow>
     (Starting \<in> set (workers s) \<longrightarrow> (\<exists>p. audio_path (ui s) = Some p \<and> p \<noteq> [])) \<and>
     (\<forall>cmd \<in> set (spawned s). \<exists>p. p \<noteq> [] \<and>
        cmd = [Some sys_executable, Some ''run.py'', Some ''--audio'', Some p])"

text \<open>
  A schedule is a list of actions, each of them one step of the GUI or of a worker, for
  running the system on examples: the user selects a file or clicks Run (with every path
  existing), the timer fires, the poll takes a message, the first worker calls \<open>Popen\<close>
  with a given result, or puts its next message.
\<close>

datatype action = Select string | Click | Fire | Poll | Spawn popen | Put

definition do_action :: "string \<Rightarrow> string \<Rightarrow> action \<Rightarrow> system \<Rightarrow> system option" where
  "do_action sys_executable base_dir a s =
     (case a of
        Select path \<Rightarrow>
          if in_poll s then None else Some (s\<lparr>ui := select_file path (ui s)\<rparr>)
      | Click \<Rightarrow>
          if in_poll s then None else Some (click_run (\<lambda>p. True) base_dir s)
      | Fire \<Rightarrow>
          if in_poll s then None
          else (case after_timers (ui s) of
                  [] \<Rightarrow> None
                | d # ds \<Rightarrow> Some (s\<lparr>ui := (ui s)\<lparr>after_timers := ds\<rparr>, in_poll := True\<rparr>))
      | Poll \<Rightarrow> if in_poll s then Some (poll_step s) else None
      | Spawn result \<Rightarrow>
          (case workers s of
             Starting # ws' \<Rightarrow>
               Some (s\<lparr>workers := [] @ (if run_process_puts result = [] then []
                                             else [Streaming (run_process_puts result)]) @ ws',
                      spawned := spawned s @ [run_process_cmd sys_executable (ui s)],
                      last_run := Some result\<rparr>)
           | _ \<Rightarrow> None)
      | Put \<Rightarrow>
          (case workers s of
             Streaming (m # ms) # ws' \<Rightarrow>
               Some (s\<lparr>ui := put m (ui s),
                      workers := [] @ (if ms = [] then [] else [Streaming ms]) @ ws'\<rparr>)
           | _ \<Rightarrow> None))"

fun run_actions :: "string \<Rightarrow> string \<Rightarrow> action list \<Rightarrow> system \<Rightarrow> system option" where
  "run_actions sys_executable base_dir [] s = Some s"
| "run_actions sys_executable base_dir (a # as) s =
     (case do_action sys_executable base_dir a s of
        None \<Rightarrow> None
      | Some s' \<Rightarrow> run_actions sys_executable base_dir as s')"


definition noon :: datetime where
  "noon = \<lparr>year = 2024, month = 3, day = 9, hour = 12, minute = 0, second = 7\<rparr>"

text \<open>
  A place to run the tool in for the examples: the key is set, \<open>sample.wav\<close> and a few
  other files exist, the model answers as \<open>replies\<close> says, and the clock reads \<open>noon\<close> and
  a minute more at each reading.
\<close>

definition example_env :: "(request \<Rightarrow> response) \<Rightarrow> env" where
  "example_env replies =
     \<lparr>environ = [''OPENAI_API_KEY'' \<mapsto> ''sk-test''],
      fs = [''sample.wav'' \<mapsto> File ''Man'', ''takes/Take1.MP3'' \<mapsto> File ''hello world'',
            ''notes.txt'' \<mapsto> File ''x'', ''clips.wav'' \<mapsto> Directory],
      resolve = (\<lambda>p. ''/home/user/'' @ p),
      api = replies,
      clock = (\<lambda>n. noon\<lparr>minute := n\<rparr>)\<rparr>"

definition replies_of :: "response \<Rightarrow> response \<Rightarrow> request \<Rightarrow> response" where
  "replies_of primary continuation r =
     (case r of
        CallModel fmt b64 n \<Rightarrow> primary
      | ContinueIfTruncated fmt b64 partial n \<Rightarrow> continuation)"


definition continuation_request :: "env \<Rightarrow> string \<Rightarrow> string \<Rightarrow> request" where
  "continuation_request e fmt b64 =
     ContinueIfTruncated fmt b64 (reply_text (api e (CallModel fmt b64 MAX_TOKENS_PRIMARY)))
       MAX_TOKENS_CONTINUE"

definition continues :: "(string \<Rightarrow> json option) \<Rightarrow> env \<Rightarrow> string \<Rightarrow> string \<Rightarrow> bool" where
  "continues loads e fmt b64 \<longleftrightarrow>
     (let r1 = api e (CallModel fmt b64 MAX_TOKENS_PRIMARY)
      in (\<exists>err. parse_json_or_raise loads (reply_text r1) = Inl err) \<or>
         parse_json_or_raise loads (reply_text r1) = Inr JNull \<or>
         finish_reason r1 = ''length'')"

definition raw_saved :: "(string \<Rightarrow> json option) \<Rightarrow> env \<Rightarrow> string \<Rightarrow> string \<Rightarrow> (string \<times> content) list" where
  "raw_saved loads e fmt b64 =
     (let text = reply_text (api e (CallModel fmt b64 MAX_TOKENS_PRIMARY))
      in case parse_json_or_raise loads text of
           Inl err \<Rightarrow> [(timestamped_name (clock e 0) ''analysis_result_raw'' ''txt'', RawText text)]
         | Inr v \<Rightarrow> [])"

text \<open>
  Five runs for the examples: a complete first reply; a first reply that parses but was
  cut off, with a continuation that is not JSON; a first reply that does not parse, with
  a complete continuation; a first reply that is the JSON \<open>null\<close>; and a first reply that
  is the JSON string \<open>"\ud800"\<close>, a lone surrogate escape.
\<close>

definition complete_at_once :: env where
  "complete_at_once =
     example_env (replies_of
       \<lparr>finish_reason = ''stop'', reply_text = ''{}''\<rparr>
       \<lparr>finish_reason = ''stop'', reply_text = ''{}''\<rparr>)"




definition null_then_complete :: env where
  "null_then_complete =
     example_env (replies_of
       \<lparr>finish_reason = ''stop'', reply_text = ''null''\<rparr>
       \<lparr>finish_reason = ''stop'', reply_text = ''{}''\<rparr>)"

text \<open>
  A run of the GUI for the examples: the user selects a file and clicks Run, the child
  writes two lines and exits with code 1, and the worker puts its messages while the poll
  is taking them. \<open>finished_run\<close> is the state at the end.
\<close>

definition one_run :: "action list" where
  "one_run =
     [Select ''/tmp/take1.wav'', Click,
      Spawn (Child [''Traceback'' @ [CHR 0x0A], ''KeyError'' @ [CHR 0x0A]] 1),
      Put, Fire, Poll, Put, Put, Poll, Put, Poll, Poll]"

definition finished_run :: system where
  "finished_run =
     \<lparr>ui = \<lparr>audio_path = Some ''/tmp/take1.wav'', running = False, run_button = Normal,
             selected_file_var = ''/tmp/take1.wav'',
             log_text = ''Traceback'' @ [CHR 0x0A] @ ''KeyError'' @ [CHR 0x0A] @ [CHR 0x0A] @
               ''[process] Finished with exit code 1'' @ [CHR 0x0A],
             output_queue = [], after_timers = [100], dialogs = []\<rparr>,
      in_poll = False, workers = [],
      spawned = [[Some ''python3'', Some ''run.py'', Some ''--audio'', Some ''/tmp/take1.wav'']],
      last_run = Some (Child [''Traceback'' @ [CHR 0x0A], ''KeyError'' @ [CHR 0x0A]] 1)\<rparr>"

text \<open>
  A run in which the worker dies: the child writes one line and then bytes that do not
  decode, and the \<open>UnicodeDecodeError\<close> ends the worker before it has put anything.
  \<open>stuck_run\<close> is the state after it, and after every later poll.
\<close>

definition undecodable_run :: "action list" where
  "undecodable_run =
     [Select ''/tmp/take1.wav'', Click, Spawn (ReadFailed [''Saved JSON'' @ [CHR 0x0A]] 0),
      Fire, Poll]"

definition stuck_run :: system where
  "stuck_run =
     \<lparr>ui = \<lparr>audio_path = Some ''/tmp/take1.wav'', running = True, run_button = Disabled,
             selected_file_var = ''/tmp/take1.wav'', log_text = [],
             output_queue = [], after_timers = [100], dialogs = []\<rparr>,
      in_poll = False, workers = [],
      spawned = [[Some ''python3'', Some ''run.py'', Some ''--audio'', Some ''/tmp/take1.wav'']],
      last_run = Some (ReadFailed [''Saved JSON'' @ [CHR 0x0A]] 0)\<rparr>"

text \<open>
  A place where the file the user selected exists and \<open>sample.wav\<close> does not.
\<close>

definition selected_only :: env where
  "selected_only =
     (example_env (replies_of
        \<lparr>finish_reason = ''stop'', reply_text = ''{}''\<rparr>
        \<lparr>finish_reason = ''stop'', reply_text = ''{}''\<rparr>))
     \<lparr>fs := [''/tmp/take1.wav'' \<mapsto> File ''Man'']\<rparr>"

chapter \<open>Properties\<close>

section \<open>The balanced block\<close>

declare block_loop.simps [simp del]

lemma block_loop_scan:
  "i \<le> length s \<Longrightarrow>
   block_loop s start i d = map_option (\<lambda>n. slice s start (i + n)) (scan d (drop i s))"
proof (induction s start i d rule: block_loop.induct)
  case (1 s start i depth)
  show ?case
  proof (cases "i < length s")
    case False
    then show ?thesis using 1(4) by (subst block_loop.simps) simp
  next
    case True
    then have d: "drop i s = s ! i # drop (Suc i) s" by (simp add: Cons_nth_drop_Suc)
    from True have le: "i + 1 \<le> length s" by simp
    show ?thesis
      using True 1(1-3)[OF True] le
      by (subst block_loop.simps) (simp add: d option.map_comp comp_def)
  qed
qed

lemma bal_Nil [simp]: "bal [] = 0" by (simp add: bal_def)
lemma bal_Cons: "bal (c # cs) = (if c = CHR ''{'' then 1 else if c = CHR ''}'' then - 1 else 0) + bal cs"
  by (simp add: bal_def)

lemma scan_Some:
  "scan d cs = Some n \<Longrightarrow> 1 \<le> d \<Longrightarrow>
     0 < n \<and> n \<le> length cs \<and> cs ! (n - 1) = CHR ''}'' \<and> d + bal (take n cs) = 0 \<and>
     (\<forall>m < n. 1 \<le> d + bal (take m cs))"
proof (induction cs arbitrary: d n)
  case Nil
  then show ?case by simp
next
  case (Cons c cs)
  consider (op) "c = CHR ''{''" | (cl1) "c = CHR ''}''" "d - 1 = 0"
    | (cl2) "c = CHR ''}''" "d - 1 \<noteq> 0" | (other) "c \<noteq> CHR ''{''" "c \<noteq> CHR ''}''"
    by blast
  then show ?case
  proof cases
    case op
    with Cons.prems obtain k where k: "scan (d + 1) cs = Some k" "n = Suc k" by auto
    from Cons.IH[OF k(1)] Cons.prems(2) have ih: "0 < k" "k \<le> length cs" "cs ! (k - 1) = CHR ''}''"
      "d + 1 + bal (take k cs) = 0" "\<forall>m<k. 1 \<le> d + 1 + bal (take m cs)" by auto
    have "\<forall>m<n. 1 \<le> d + bal (take m (c # cs))"
    proof (intro allI impI)
      fix m assume "m < n"
      then show "1 \<le> d + bal (take m (c # cs))"
        using ih(5) k(2) op Cons.prems(2) by (cases m) (auto simp: bal_Cons)
    qed
    then show ?thesis using ih k(2) op by (auto simp: bal_Cons nth_Cons')
  next
    case cl1
    then show ?thesis using Cons.prems by (auto simp: bal_Cons)
  next
    case cl2
    with Cons.prems obtain k where k: "scan (d - 1) cs = Some k" "n = Suc k" by auto
    from cl2 Cons.prems(2) have d1: "1 \<le> d - 1" by simp
    from Cons.IH[OF k(1) d1] have ih: "0 < k" "k \<le> length cs" "cs ! (k - 1) = CHR ''}''"
      "d - 1 + bal (take k cs) = 0" "\<forall>m<k. 1 \<le> d - 1 + bal (take m cs)" by auto
    have "\<forall>m<n. 1 \<le> d + bal (take m (c # cs))"
    proof (intro allI impI)
      fix m assume "m < n"
      then show "1 \<le> d + bal (take m (c # cs))"
        using ih(5) k(2) cl2 Cons.prems(2) by (cases m) (auto simp: bal_Cons)
    qed
    then show ?thesis using ih k(2) cl2 by (auto simp: bal_Cons nth_Cons')
  next
    case other
    with Cons.prems obtain k where k: "scan d cs = Some k" "n = Suc k" by auto
    from Cons.IH[OF k(1) Cons.prems(2)] have ih: "0 < k" "k \<le> length cs" "cs ! (k - 1) = CHR ''}''"
      "d + bal (take k cs) = 0" "\<forall>m<k. 1 \<le> d + bal (take m cs)" by auto
    have "\<forall>m<n. 1 \<le> d + bal (take m (c # cs))"
    proof (intro allI impI)
      fix m assume "m < n"
      then show "1 \<le> d + bal (take m (c # cs))"
        using ih(5) k(2) other Cons.prems(2) by (cases m) (auto simp: bal_Cons)
    qed
    then show ?thesis using ih k(2) other by (auto simp: bal_Cons nth_Cons')
  qed
qed

lemma scan_None:
  "scan d cs = None \<Longrightarrow> 1 \<le> d \<Longrightarrow> m \<le> length cs \<Longrightarrow> 1 \<le> d + bal (take m cs)"
proof (induction cs arbitrary: d m)
  case Nil
  then show ?case by simp
next
  case (Cons c cs)
  show ?case
  proof (cases m)
    case 0
    then show ?thesis using Cons.prems by simp
  next
    case (Suc k)
    then show ?thesis using Cons.prems Cons.IH[of "d+1" k] Cons.IH[of "d - 1" k] Cons.IH[of d k]
      by (auto simp: bal_Cons split: if_splits)
  qed
qed

lemma find_char_absent: "c \<notin> set s \<Longrightarrow> find_char c s = - 1"
  by (simp add: find_char_def)

lemma find_char_present:
  "c \<in> set s \<Longrightarrow> find_char c s = int (length (takeWhile (\<lambda>x. x \<noteq> c) s))"
  by (simp add: find_char_def)

lemma drop_find_char:
  "drop (length (takeWhile P s)) s = dropWhile P s"
  by (induction s) auto

lemma balanced_json_block_scan:
  "balanced_json_block s =
     (if CHR ''{'' \<in> set s
      then map_option (\<lambda>n. take n (from_first_brace s)) (scan 0 (from_first_brace s))
      else None)"
proof (cases "CHR ''{'' \<in> set s")
  case False
  then show ?thesis by (simp add: balanced_json_block_def find_char_def)
next
  case True
  have le: "length (takeWhile (\<lambda>x. x \<noteq> CHR ''{'') s) \<le> length s"
    by (rule length_takeWhile_le)
  show ?thesis
    using True block_loop_scan[OF le, of "length (takeWhile (\<lambda>x. x \<noteq> CHR ''{'') s)" 0]
    by (simp add: balanced_json_block_def find_char_def slice_def drop_find_char
        from_first_brace_def Let_def)
qed

lemma from_first_brace_Cons:
  "CHR ''{'' \<in> set s \<Longrightarrow> \<exists>r. from_first_brace s = CHR ''{'' # r"
  unfolding from_first_brace_def by (induction s) auto

lemma scan0_Some:
  assumes "scan 0 (CHR ''{'' # r) = Some n"
  shows "0 < n \<and> n \<le> length (CHR ''{'' # r) \<and> (CHR ''{'' # r) ! (n - 1) = CHR ''}'' \<and>
         bal (take n (CHR ''{'' # r)) = 0 \<and>
         (\<forall>m. 0 < m \<and> m < n \<longrightarrow> 1 \<le> bal (take m (CHR ''{'' # r)))"
proof -
  from assms obtain k where k: "scan 1 r = Some k" "n = Suc k" by auto
  from scan_Some[OF k(1)] have ih: "0 < k" "k \<le> length r" "r ! (k - 1) = CHR ''}''"
    "1 + bal (take k r) = 0" "\<forall>m<k. 1 \<le> 1 + bal (take m r)" by auto
  have "\<forall>m. 0 < m \<and> m < n \<longrightarrow> 1 \<le> bal (take m (CHR ''{'' # r))"
  proof (intro allI impI)
    fix m assume "0 < m \<and> m < n"
    then show "1 \<le> bal (take m (CHR ''{'' # r))"
      using ih(5) k(2) by (cases m) (auto simp: bal_Cons)
  qed
  then show ?thesis using ih k(2) by (auto simp: bal_Cons nth_Cons')
qed

lemma scan0_None:
  assumes "scan 0 (CHR ''{'' # r) = None" "0 < m" "m \<le> length (CHR ''{'' # r)"
  shows "1 \<le> bal (take m (CHR ''{'' # r))"
proof -
  from assms(1) have n: "scan 1 r = None" by auto
  from assms(2,3) obtain k where k: "m = Suc k" "k \<le> length r" by (cases m) auto
  from scan_None[OF n _ k(2)] show ?thesis using k(1) by (simp add: bal_Cons)
qed

lemma from_first_brace_split:
  "\<exists>pre. s = pre @ from_first_brace s \<and> CHR ''{'' \<notin> set pre"
proof -
  have "s = takeWhile (\<lambda>c. c \<noteq> CHR ''{'') s @ from_first_brace s"
    by (simp add: from_first_brace_def)
  moreover have "CHR ''{'' \<notin> set (takeWhile (\<lambda>c. c \<noteq> CHR ''{'') s)"
    by (auto dest: set_takeWhileD)
  ultimately show ?thesis by blast
qed

lemma balanced_json_block_cases:
  assumes "CHR ''{'' \<in> set s"
  obtains (unclosed) "balanced_json_block s = None"
      "\<And>n. 0 < n \<Longrightarrow> n \<le> length (from_first_brace s) \<Longrightarrow>
         1 \<le> bal (take n (from_first_brace s))"
    | (closed) k where "balanced_json_block s = Some (take k (from_first_brace s))"
      "0 < k" "k \<le> length (from_first_brace s)"
      "from_first_brace s ! (k - 1) = CHR ''}''"
      "bal (take k (from_first_brace s)) = 0"
      "\<And>m. 0 < m \<Longrightarrow> m < k \<Longrightarrow> 1 \<le> bal (take m (from_first_brace s))"
proof -
  from assms obtain r where r: "from_first_brace s = CHR ''{'' # r"
    using from_first_brace_Cons by blast
  have res: "balanced_json_block s =
      map_option (\<lambda>n. take n (from_first_brace s)) (scan 0 (from_first_brace s))"
    using assms by (simp only: balanced_json_block_scan if_True)
  show thesis
  proof (cases "scan 0 (from_first_brace s)")
    case None
    have "balanced_json_block s = None" using res None by simp
    moreover have "\<And>n. 0 < n \<Longrightarrow> n \<le> length (from_first_brace s) \<Longrightarrow>
         1 \<le> bal (take n (from_first_brace s))"
      using scan0_None[of r] None unfolding r by blast
    ultimately show thesis by (rule unclosed)
  next
    case (Some k)
    have b: "balanced_json_block s = Some (take k (from_first_brace s))"
      using res Some by simp
    from Some have "scan 0 (CHR ''{'' # r) = Some k" unfolding r .
    from scan0_Some[OF this] have k: "0 < k" "k \<le> length (from_first_brace s)"
      "from_first_brace s ! (k - 1) = CHR ''}''" "bal (take k (from_first_brace s)) = 0"
      "\<forall>m. 0 < m \<and> m < k \<longrightarrow> 1 \<le> bal (take m (from_first_brace s))"
      unfolding r by blast+
    from k(5) have "\<And>m. 0 < m \<Longrightarrow> m < k \<Longrightarrow> 1 \<le> bal (take m (from_first_brace s))"
      by blast
    with b k(1-4) show thesis by (rule closed)
  qed
qed

lemma bal_pos_counts:
  "1 \<le> bal xs \<Longrightarrow> count_list xs CHR ''}'' < count_list xs CHR ''{''"
  by (simp add: bal_def)

lemma bal_zero_counts:
  "bal xs = 0 \<longleftrightarrow> count_list xs CHR ''{'' = count_list xs CHR ''}''"
  by (simp add: bal_def)

lemma balanced_json_block_None_iff:
  "balanced_json_block s = None \<longleftrightarrow>
      CHR ''{'' \<notin> set s \<or>
      (\<forall>n. 0 < n \<and> n \<le> length (from_first_brace s) \<longrightarrow>
         count_list (take n (from_first_brace s)) CHR ''{''
           \<noteq> count_list (take n (from_first_brace s)) CHR ''}'')"
proof (cases "CHR ''{'' \<in> set s")
  case False
  then show ?thesis by (simp add: balanced_json_block_scan)
next
  case True
  then show ?thesis
  proof (cases rule: balanced_json_block_cases)
    case unclosed
    have "\<forall>n. 0 < n \<and> n \<le> length (from_first_brace s) \<longrightarrow>
         count_list (take n (from_first_brace s)) CHR ''{''
           \<noteq> count_list (take n (from_first_brace s)) CHR ''}''"
    proof (intro allI impI)
      fix n assume "0 < n \<and> n \<le> length (from_first_brace s)"
      then have "1 \<le> bal (take n (from_first_brace s))" using unclosed(2) by blast
      from bal_pos_counts[OF this]
      show "count_list (take n (from_first_brace s)) CHR ''{''
           \<noteq> count_list (take n (from_first_brace s)) CHR ''}''" by simp
    qed
    with unclosed(1) show ?thesis by blast
  next
    case (closed k)
    have "0 < k \<and> k \<le> length (from_first_brace s) \<and>
        count_list (take k (from_first_brace s)) CHR ''{''
           = count_list (take k (from_first_brace s)) CHR ''}''"
      using closed(2,3,5) by (simp add: bal_zero_counts)
    then have "\<not> (\<forall>n. 0 < n \<and> n \<le> length (from_first_brace s) \<longrightarrow>
         count_list (take n (from_first_brace s)) CHR ''{''
           \<noteq> count_list (take n (from_first_brace s)) CHR ''}'')" by blast
    with closed(1) True show ?thesis by simp
  qed
qed

lemma balanced_json_block_Some:
  assumes "balanced_json_block s = Some b"
  shows "(\<exists>pre post. s = pre @ b @ post \<and> CHR ''{'' \<notin> set pre) \<and>
        b \<noteq> [] \<and> hd b = CHR ''{'' \<and> last b = CHR ''}'' \<and>
        count_list b CHR ''{'' = count_list b CHR ''}'' \<and>
        (\<forall>n. 0 < n \<and> n < length b \<longrightarrow>
           count_list (take n b) CHR ''}'' < count_list (take n b) CHR ''{'')"
proof -
  have br: "CHR ''{'' \<in> set s"
    using assms by (auto simp: balanced_json_block_scan split: if_splits)
  then obtain r where r: "from_first_brace s = CHR ''{'' # r"
    using from_first_brace_Cons by blast
  from br show ?thesis
  proof (cases rule: balanced_json_block_cases)
    case unclosed
    with assms show ?thesis by simp
  next
    case (closed k)
    let ?t = "from_first_brace s"
    from closed(1) assms have b: "b = take k ?t" by simp
    have len: "length b = k" using closed(3) b by simp
    obtain j where j: "k = Suc j" using closed(2) by (cases k) auto
    have ne: "b \<noteq> []" using len closed(2) by auto
    have hdb: "hd b = CHR ''{''" unfolding b r j by simp
    have "last b = b ! (k - 1)" using ne len by (simp add: last_conv_nth)
    also have "\<dots> = ?t ! (k - 1)" unfolding b using closed(2) by simp
    finally have lst: "last b = CHR ''}''" using closed(4) by simp
    have cnt: "count_list b CHR ''{'' = count_list b CHR ''}''"
      using closed(5) unfolding b by (simp add: bal_zero_counts)
    have pfx: "\<forall>n. 0 < n \<and> n < length b \<longrightarrow>
                 count_list (take n b) CHR ''}'' < count_list (take n b) CHR ''{''"
    proof (intro allI impI)
      fix n assume n: "0 < n \<and> n < length b"
      then have nk: "n < k" using len by simp
      then have "1 \<le> bal (take n ?t)" using closed(6) n by blast
      moreover have "take n b = take n ?t" unfolding b using nk by (simp add: min_def)
      ultimately show "count_list (take n b) CHR ''}'' < count_list (take n b) CHR ''{''"
        using bal_pos_counts by simp
    qed
    obtain pre where pre: "s = pre @ ?t" "CHR ''{'' \<notin> set pre"
      using from_first_brace_split[of s] by blast
    have "s = pre @ b @ drop k ?t" unfolding b using pre(1) by simp
    with pre(2) have sp: "\<exists>pre post. s = pre @ b @ post \<and> CHR ''{'' \<notin> set pre" by blast
    from sp ne hdb lst cnt pfx show ?thesis by (intro conjI)
  qed
qed

text \<open>
  Claim C9. For every string, \<open>_balanced_json_block\<close> returns \<open>None\<close> when the string has
  no \<open>{\<close>, or when no non-empty prefix of the text starting at its first \<open>{\<close> has as many
  \<open>}\<close> as \<open>{\<close> (and only then). When it returns a block, the block sits in the input
  right after a brace-free part (so it starts at the input's first \<open>{\<close>), it ends with
  \<open>}\<close>, it has equal counts of \<open>{\<close> and \<open>}\<close>, and every non-empty proper prefix of it has
  strictly more \<open>{\<close> than \<open>}\<close>.
\<close>

theorem balanced_json_block_spec:
  "(balanced_json_block s = None \<longleftrightarrow>
      CHR ''{'' \<notin> set s \<or>
      (\<forall>n. 0 < n \<and> n \<le> length (from_first_brace s) \<longrightarrow>
         count_list (take n (from_first_brace s)) CHR ''{''
           \<noteq> count_list (take n (from_first_brace s)) CHR ''}''))
   \<and> (\<forall>b. balanced_json_block s = Some b \<longrightarrow>
        (\<exists>pre post. s = pre @ b @ post \<and> CHR ''{'' \<notin> set pre) \<and>
        b \<noteq> [] \<and> hd b = CHR ''{'' \<and> last b = CHR ''}'' \<and>
        count_list b CHR ''{'' = count_list b CHR ''}'' \<and>
        (\<forall>n. 0 < n \<and> n < length b \<longrightarrow>
           count_list (take n b) CHR ''}'' < count_list (take n b) CHR ''{''))"
  using balanced_json_block_None_iff [of s] balanced_json_block_Some [of s]
  by (intro conjI allI impI) blast+

theorem balanced_json_block_spec_witness:
  "balanced_json_block ''a{b{c}}d}'' = Some ''{b{c}}'' \<and>
   (\<exists>pre post. ''a{b{c}}d}'' = pre @ ''{b{c}}'' @ post \<and> CHR ''{'' \<notin> set pre) \<and>
   hd ''{b{c}}'' = CHR ''{'' \<and> last ''{b{c}}'' = CHR ''}'' \<and>
   count_list ''{b{c}}'' CHR ''{'' = count_list ''{b{c}}'' CHR ''}'' \<and>
   count_list (take 4 ''{b{c}}'') CHR ''}'' < count_list (take 4 ''{b{c}}'') CHR ''{'' \<and>
   balanced_json_block ''a{b{c}d'' = None"
proof -
  have e: "balanced_json_block ''a{b{c}}d}'' = Some ''{b{c}}''" by code_simp
  have n: "balanced_json_block ''a{b{c}d'' = None" by code_simp
  have l: "0 < (4::nat) \<and> 4 < length ''{b{c}}''" by simp
  from balanced_json_block_spec [of "''a{b{c}}d}''"] e l n show ?thesis by blast
qed

section \<open>Recovering JSON from the reply\<close>

lemma truthy_balanced_json_block:
  "truthy (balanced_json_block text) = balanced_json_block text"
proof (cases "balanced_json_block text")
  case None
  then show ?thesis by (simp add: truthy_def)
next
  case (Some b)
  with balanced_json_block_Some[OF Some] obtain c cs where "b = c # cs" by (cases b) auto
  with Some show ?thesis by (simp add: truthy_def)
qed

lemma parse_json_traced_direct:
  "loads text = Some v \<Longrightarrow> parse_json_traced loads text = ([Direct], Inr v)"
  by (simp add: parse_json_traced_def)

lemma parse_json_traced_block:
  "loads text = None \<Longrightarrow> balanced_json_block text = Some b \<Longrightarrow>
   parse_json_traced loads text =
     ([Direct, BalancedBlock b],
      case loads b of Some v \<Rightarrow> Inr v | None \<Rightarrow> Inl (JSONDecodeError b))"
  using truthy_balanced_json_block[of "text"] by (simp add: parse_json_traced_def)

lemma parse_json_traced_fence:
  "loads text = None \<Longrightarrow> balanced_json_block text = None \<Longrightarrow>
   parse_json_traced loads text =
     ([Direct, FencedCode (fence_search text)],
      case fence_search text of
        Some g \<Rightarrow> (case loads g of Some v \<Rightarrow> Inr v | None \<Rightarrow> Inl (JSONDecodeError g))
      | None \<Rightarrow> Inl (ValueError ''Could not parse JSON from model output.''))"
  using truthy_balanced_json_block[of "text"] by (simp add: parse_json_traced_def Let_def)

text \<open>
  Claim C3, as the program has it. \<open>parse_json_or_raise\<close> returns the value of the whole
  text when that is valid JSON; otherwise, when the text has a balanced top-level brace
  block, the value of that block when it is valid JSON; otherwise, and only when the text
  has no balanced block at all, the value of the first fenced block when that is valid
  JSON. It raises exactly when the whole text is not valid JSON and the block, if there
  is one, is not valid JSON either, or there is no block and the fenced code is missing
  or not valid JSON.
\<close>

theorem parse_json_or_raise_recovery:
  "(loads text = Some v \<longrightarrow> parse_json_or_raise loads text = Inr v) \<and>
   (loads text = None \<and> balanced_json_block text = Some b \<and> loads b = Some v \<longrightarrow>
      parse_json_or_raise loads text = Inr v) \<and>
   (loads text = None \<and> balanced_json_block text = None \<and> fence_search text = Some g \<and>
    loads g = Some v \<longrightarrow> parse_json_or_raise loads text = Inr v) \<and>
   ((\<exists>err. parse_json_or_raise loads text = Inl err) \<longleftrightarrow>
      loads text = None \<and>
      (case balanced_json_block text of
         Some b \<Rightarrow> loads b = None
       | None \<Rightarrow> (case fence_search text of Some g \<Rightarrow> loads g = None | None \<Rightarrow> True)))"
proof (intro conjI impI)
  assume "loads text = Some v"
  then show "parse_json_or_raise loads text = Inr v"
    by (simp add: parse_json_or_raise_def parse_json_traced_direct)
next
  assume "loads text = None \<and> balanced_json_block text = Some b \<and> loads b = Some v"
  then show "parse_json_or_raise loads text = Inr v"
    by (simp add: parse_json_or_raise_def parse_json_traced_block)
next
  assume "loads text = None \<and> balanced_json_block text = None \<and> fence_search text = Some g \<and>
    loads g = Some v"
  then show "parse_json_or_raise loads text = Inr v"
    by (simp add: parse_json_or_raise_def parse_json_traced_fence)
next
  show "(\<exists>err. parse_json_or_raise loads text = Inl err) \<longleftrightarrow>
      loads text = None \<and>
      (case balanced_json_block text of
         Some b \<Rightarrow> loads b = None
       | None \<Rightarrow> (case fence_search text of Some g \<Rightarrow> loads g = None | None \<Rightarrow> True))"
  proof (cases "loads text")
    case (Some v)
    then show ?thesis by (simp add: parse_json_or_raise_def parse_json_traced_direct)
  next
    case None
    show ?thesis
    proof (cases "balanced_json_block text")
      case (Some b)
      with None show ?thesis
        by (simp add: parse_json_or_raise_def parse_json_traced_block split: option.splits)
    next
      case nb: None
      with None show ?thesis
        by (simp add: parse_json_or_raise_def parse_json_traced_fence split: option.splits)
    qed
  qed
qed

lemma ex_text_1: "json_loads ''{x} ```{}```'' = None" by code_simp
lemma ex_block_1: "balanced_json_block ''{x} ```{}```'' = Some ''{x}''" by code_simp
lemma ex_block_doc: "json_loads ''{x}'' = None" by code_simp
lemma ex_fence_1: "fence_search ''{x} ```{}```'' = Some ''{}''" by code_simp
lemma ex_empty_object: "json_loads ''{}'' = Some (JObject [])" by code_simp
lemma ex_text_2: "json_loads ''{ ```{}```'' = None" by code_simp
lemma ex_block_2: "balanced_json_block ''{ ```{}```'' = None" by code_simp
lemma ex_fence_2: "fence_search ''{ ```{}```'' = Some ''{}''" by code_simp

text \<open>
  Claim C3 as stated fails: in the text below the whole text and its balanced block
  \<open>{x}\<close> are not valid JSON, the fenced block \<open>{}\<close> is, and the function raises the
  decoding error of \<open>{x}\<close>.
\<close>

theorem parse_json_or_raise_fence_ignored:
  "json_loads ''{x} ```{}```'' = None \<and>
   balanced_json_block ''{x} ```{}```'' = Some ''{x}'' \<and>
   json_loads ''{x}'' = None \<and>
   fence_search ''{x} ```{}```'' = Some ''{}'' \<and>
   json_loads ''{}'' = Some (JObject []) \<and>
   parse_json_or_raise json_loads ''{x} ```{}```'' = Inl (JSONDecodeError ''{x}'')"
proof -
  have "parse_json_or_raise json_loads ''{x} ```{}```'' = Inl (JSONDecodeError ''{x}'')"
    by (simp add: parse_json_or_raise_def
        parse_json_traced_block[of json_loads, OF ex_text_1 ex_block_1] ex_block_doc)
  then show ?thesis
    using ex_text_1 ex_block_1 ex_block_doc ex_fence_1 ex_empty_object by simp
qed

theorem parse_json_or_raise_recovery_witness:
  "json_loads ''{ ```{}```'' = None \<and> balanced_json_block ''{ ```{}```'' = None \<and>
   fence_search ''{ ```{}```'' = Some ''{}'' \<and> json_loads ''{}'' = Some (JObject []) \<and>
   parse_json_or_raise json_loads ''{ ```{}```'' = Inr (JObject []) \<and>
   parse_json_or_raise json_loads ''{}'' = Inr (JObject []) \<and>
   (\<exists>err. parse_json_or_raise json_loads ''{x} ```{}```'' = Inl err)"
proof -
  have a: "parse_json_or_raise json_loads ''{ ```{}```'' = Inr (JObject [])"
    using parse_json_or_raise_recovery[of json_loads "''{ ```{}```''" "JObject []" "[]" "''{}''"]
      ex_text_2 ex_block_2 ex_fence_2 ex_empty_object by simp
  have b: "parse_json_or_raise json_loads ''{}'' = Inr (JObject [])"
    using parse_json_or_raise_recovery[of json_loads "''{}''" "JObject []" "[]" "[]"]
      ex_empty_object by simp
  have c: "\<exists>err. parse_json_or_raise json_loads ''{x} ```{}```'' = Inl err"
    using parse_json_or_raise_recovery[of json_loads "''{x} ```{}```''" "JNull" "[]" "[]"]
      ex_text_1 ex_block_1 ex_block_doc by simp
  from a b c ex_text_2 ex_block_2 ex_fence_2 ex_empty_object show ?thesis by simp
qed

text \<open>
  Claim C8. If the text is not valid JSON and has a balanced top-level brace block that
  is not valid JSON either, \<open>parse_json_or_raise\<close> raises the decoding error of that block,
  having tried the direct decoding and the block and nothing else; and whenever the
  fenced-code recovery is tried, the text is not valid JSON and \<open>_balanced_json_block\<close>
  found no block in it.
\<close>

theorem parse_json_or_raise_block_error:
  "(loads text = None \<and> balanced_json_block text = Some b \<and> loads b = None \<longrightarrow>
      parse_json_or_raise loads text = Inl (JSONDecodeError b) \<and>
      fst (parse_json_traced loads text) = [Direct, BalancedBlock b]) \<and>
   ((\<exists>m. FencedCode m \<in> set (fst (parse_json_traced loads text))) \<longrightarrow>
      loads text = None \<and> balanced_json_block text = None)"
proof (intro conjI impI)
  assume h: "loads text = None \<and> balanced_json_block text = Some b \<and> loads b = None"
  then show "parse_json_or_raise loads text = Inl (JSONDecodeError b)"
    by (simp add: parse_json_or_raise_def parse_json_traced_block)
  from h show "fst (parse_json_traced loads text) = [Direct, BalancedBlock b]"
    by (simp add: parse_json_traced_block)
next
  assume f: "\<exists>m. FencedCode m \<in> set (fst (parse_json_traced loads text))"
  show "loads text = None"
  proof (cases "loads text")
    case (Some v)
    with f show ?thesis by (simp add: parse_json_traced_direct)
  qed simp
  show "balanced_json_block text = None"
  proof (cases "loads text")
    case (Some v)
    with f show ?thesis by (simp add: parse_json_traced_direct)
  next
    case None
    show ?thesis
    proof (cases "balanced_json_block text")
      case (Some b)
      with None f show ?thesis by (simp add: parse_json_traced_block)
    qed simp
  qed
qed

theorem parse_json_or_raise_block_error_witness:
  "json_loads ''{a:1} tail'' = None \<and> balanced_json_block ''{a:1} tail'' = Some ''{a:1}'' \<and>
   json_loads ''{a:1}'' = None \<and>
   parse_json_or_raise json_loads ''{a:1} tail'' = Inl (JSONDecodeError ''{a:1}'') \<and>
   fst (parse_json_traced json_loads ''{a:1} tail'') = [Direct, BalancedBlock ''{a:1}''] \<and>
   FencedCode (Some ''{}'') \<in> set (fst (parse_json_traced json_loads ''{ ```{}```'')) \<and>
   json_loads ''{ ```{}```'' = None \<and> balanced_json_block ''{ ```{}```'' = None"
proof -
  have t: "json_loads ''{a:1} tail'' = None" by code_simp
  have b: "balanced_json_block ''{a:1} tail'' = Some ''{a:1}''" by code_simp
  have d: "json_loads ''{a:1}'' = None" by code_simp
  have f: "FencedCode (Some ''{}'') \<in> set (fst (parse_json_traced json_loads ''{ ```{}```''))"
    by (simp add: parse_json_traced_fence[of json_loads, OF ex_text_2 ex_block_2] ex_fence_2
        del: fence_search.simps)
  from parse_json_or_raise_block_error[of json_loads "''{a:1} tail''" "''{a:1}''"] t b d
  have one: "parse_json_or_raise json_loads ''{a:1} tail'' = Inl (JSONDecodeError ''{a:1}'') \<and>
   fst (parse_json_traced json_loads ''{a:1} tail'') = [Direct, BalancedBlock ''{a:1}'']"
    by simp
  from parse_json_or_raise_block_error[of json_loads "''{ ```{}```''" "[]"] f
  have two: "json_loads ''{ ```{}```'' = None \<and> balanced_json_block ''{ ```{}```'' = None"
    by blast
  from one two t b d f show ?thesis by simp
qed

section \<open>Saving results\<close>

declare show_nat.simps [simp del]

lemma is_digit_digit_char: "n < 10 \<Longrightarrow> is_digit (digit_char n)"
  by (simp add: is_digit_def digit_char_def codepoint_def)

lemma codepoint_digit_char: "n < 10 \<Longrightarrow> codepoint (digit_char n) = 0x30 + n"
  by (simp add: digit_char_def codepoint_def)

lemma show_nat_1: "n < 10 \<Longrightarrow> show_nat n = [digit_char n]"
  by (subst show_nat.simps) simp

lemma show_nat_2:
  "10 \<le> n \<Longrightarrow> n < 100 \<Longrightarrow> show_nat n = [digit_char (n div 10), digit_char (n mod 10)]"
  by (subst show_nat.simps) (simp add: show_nat_1)

lemma show_nat_3:
  "100 \<le> n \<Longrightarrow> n < 1000 \<Longrightarrow>
   show_nat n = [digit_char (n div 100), digit_char (n div 10 mod 10), digit_char (n mod 10)]"
  by (subst show_nat.simps) (simp add: show_nat_2 div_mult2_eq[symmetric])

lemma show_nat_4:
  "1000 \<le> n \<Longrightarrow> n < 10000 \<Longrightarrow>
   show_nat n = [digit_char (n div 1000), digit_char (n div 100 mod 10),
                 digit_char (n div 10 mod 10), digit_char (n mod 10)]"
  by (subst show_nat.simps) (simp add: show_nat_3 div_mult2_eq[symmetric])

lemma digit_char_0: "digit_char 0 = CHR ''0''"
proof -
  have "(of_char (digit_char 0) :: nat) = of_char CHR ''0''"
    by (simp add: digit_char_def)
  then show ?thesis by (simp only: of_char_eq_iff)
qed

lemma replicate_2: "replicate 2 x = [x, x]"
  by (simp add: numeral_2_eq_2)

lemma zfill_2:
  "n < 100 \<Longrightarrow> zfill 2 (show_nat n) = [digit_char (n div 10), digit_char (n mod 10)]"
  by (cases "n < 10") (simp_all add: zfill_def show_nat_1 show_nat_2 digit_char_0)


lemma valid_datetime_bounds:
  assumes "valid_datetime d"
  shows "year d < 10000" "month d < 100" "day d < 100" "hour d < 100"
    "minute d < 100" "second d < 100" "1000 \<le> year d"
  using assms unfolding valid_datetime_def by simp_all


lemma strftime_explicit:
  assumes "valid_datetime d"
  shows "strftime d =
    [digit_char (year d div 1000), digit_char (year d div 100 mod 10),
     digit_char (year d div 10 mod 10), digit_char (year d mod 10), CHR ''-'',
     digit_char (month d div 10), digit_char (month d mod 10), CHR ''-'',
     digit_char (day d div 10), digit_char (day d mod 10), CHR ''_'',
     digit_char (hour d div 10), digit_char (hour d mod 10), CHR ''-'',
     digit_char (minute d div 10), digit_char (minute d mod 10), CHR ''-'',
     digit_char (second d div 10), digit_char (second d mod 10)]"
proof -
  note b = valid_datetime_bounds[OF assms]
  show ?thesis
    unfolding strftime_def show_nat_4[OF b(7) b(1)] zfill_2[OF b(2)] zfill_2[OF b(3)]
        zfill_2[OF b(4)] zfill_2[OF b(5)] zfill_2[OF b(6)]
    by simp
qed






lemma digit_chars:
  "digit_char 1 = CHR ''1''" "digit_char 2 = CHR ''2''" "digit_char 3 = CHR ''3''"
  "digit_char 4 = CHR ''4''" "digit_char 5 = CHR ''5''" "digit_char 6 = CHR ''6''"
  "digit_char 7 = CHR ''7''" "digit_char 8 = CHR ''8''" "digit_char 9 = CHR ''9''"
proof -
  have "\<And>n c. n < 10 \<Longrightarrow> (of_char c :: nat) = 0x30 + n \<Longrightarrow> digit_char n = c"
  proof -
    fix n :: nat and c :: char
    assume "n < 10" "(of_char c :: nat) = 0x30 + n"
    then have "(of_char (digit_char n) :: nat) = of_char c"
      by (simp add: digit_char_def)
    then show "digit_char n = c" by (simp only: of_char_eq_iff)
  qed
  then show "digit_char 1 = CHR ''1''" "digit_char 2 = CHR ''2''" "digit_char 3 = CHR ''3''"
    "digit_char 4 = CHR ''4''" "digit_char 5 = CHR ''5''" "digit_char 6 = CHR ''6''"
    "digit_char 7 = CHR ''7''" "digit_char 8 = CHR ''8''" "digit_char 9 = CHR ''9''"
    by simp_all
qed

lemma digit_char_Suc_0: "digit_char (Suc 0) = CHR ''1''"
  using digit_chars(1) by simp

lemma save_json_encodable:
  "encodable payload \<Longrightarrow>
   save_json now payload base_name w =
     (Inr (timestamped_name (now (ticks w)) base_name ''json''),
      w\<lparr>written := written w @
           [(timestamped_name (now (ticks w)) base_name ''json'', JsonDoc payload)],
        ticks := ticks w + 1\<rparr>)"
  by (simp add: save_json_def Let_def)



lemma valid_noon: "valid_datetime noon"
  by (simp add: valid_datetime_def noon_def)

lemma strftime_noon: "strftime noon = ''2024-03-09_12-00-07''"
  unfolding strftime_explicit[OF valid_noon]
  by (simp add: noon_def digit_chars digit_char_0 digit_char_Suc_0)








section \<open>Reading the audio file\<close>

lemma rfind_char_drop:
  assumes "c \<in> set s"
  shows "\<exists>r. drop (nat (rfind_char c s)) s = c # r \<and> c \<notin> set r"
proof -
  from split_list_last[OF assms] obtain a r where s: "s = a @ c # r" "c \<notin> set r" by blast
  have "takeWhile (\<lambda>x. x \<noteq> c) (rev s) = rev r"
  proof -
    have "takeWhile (\<lambda>x. x \<noteq> c) (rev r @ c # rev a) = rev r @ takeWhile (\<lambda>x. x \<noteq> c) (c # rev a)"
      using s(2) by (intro takeWhile_append2) auto
    then show ?thesis using s(1) by simp
  qed
  then have "rfind_char c s = int (length a)"
    using assms s(1) by (simp add: rfind_char_def)
  then show ?thesis using s by simp
qed

lemma suffix_shape: "suffix p = [] \<or> (\<exists>r. suffix p = CHR ''.'' # r \<and> CHR ''.'' \<notin> set r)"
proof (cases "CHR ''.'' \<in> set (path_name p)")
  case False
  then show ?thesis by (simp add: suffix_def rfind_char_def Let_def)
next
  case True
  from rfind_char_drop[OF True] show ?thesis
    by (auto simp: suffix_def Let_def)
qed

lemma lower_char_dot: "lower_char c = CHR ''.'' \<longleftrightarrow> c = CHR ''.''"
proof
  assume "c = CHR ''.''"
  then show "lower_char c = CHR ''.''" by (simp add: lower_char_def codepoint_def)
next
  assume a: "lower_char c = CHR ''.''"
  show "c = CHR ''.''"
  proof (rule ccontr)
    assume n: "c \<noteq> CHR ''.''"
    with a have r: "(0x41 \<le> codepoint c \<and> codepoint c \<le> 0x5A) \<or>
         (0xC0 \<le> codepoint c \<and> codepoint c \<le> 0xDE \<and> codepoint c \<noteq> 0xD7)"
      and e: "char_of (codepoint c + 32) = CHR ''.''"
      by (auto simp: lower_char_def split: if_splits)
    from e have "(of_char (char_of (codepoint c + 32) :: char) :: nat) = of_char CHR ''.''"
      by simp
    then have "(codepoint c + 32) mod 256 = 46" by simp
    with r show False by auto
  qed
qed

lemma lower_suffix_shape:
  "lower (suffix p) = [] \<or>
   (\<exists>r. lower (suffix p) = CHR ''.'' # r \<and> CHR ''.'' \<notin> set r)"
proof -
  from suffix_shape[of p] show ?thesis
  proof
    assume "suffix p = []"
    then show ?thesis by (simp add: lower_def)
  next
    assume "\<exists>r. suffix p = CHR ''.'' # r \<and> CHR ''.'' \<notin> set r"
    then obtain r where r: "suffix p = CHR ''.'' # r" "CHR ''.'' \<notin> set r" by blast
    have d: "lower_char CHR ''.'' = CHR ''.''" by (simp add: lower_char_dot)
    have "CHR ''.'' \<notin> set (map lower_char r)"
    proof
      assume "CHR ''.'' \<in> set (map lower_char r)"
      then obtain x where "x \<in> set r" "lower_char x = CHR ''.''" by auto
      with r(2) show False by (simp add: lower_char_dot)
    qed
    with r(1) d have "lower (suffix p) = CHR ''.'' # map lower_char r \<and>
        CHR ''.'' \<notin> set (map lower_char r)"
      by (simp add: lower_def)
    then show ?thesis by blast
  qed
qed

lemma lstrip_dots_lower_suffix: "lstrip_dots (lower (suffix p)) = drop 1 (lower (suffix p))"
proof -
  from lower_suffix_shape[of p] show ?thesis
  proof
    assume "lower (suffix p) = []"
    then show ?thesis by (simp add: lstrip_dots_def)
  next
    assume "\<exists>r. lower (suffix p) = CHR ''.'' # r \<and> CHR ''.'' \<notin> set r"
    then obtain r where r: "lower (suffix p) = CHR ''.'' # r" "CHR ''.'' \<notin> set r" by blast
    have "dropWhile (\<lambda>c. c = CHR ''.'') r = r" using r(2) by (cases r) auto
    then show ?thesis using r(1) by (simp add: lstrip_dots_def)
  qed
qed

lemma fmt_accepted_iff:
  "lstrip_dots (lower (suffix p)) \<in> {''wav'', ''mp3''} \<longleftrightarrow>
   lower (suffix p) \<in> {''.wav'', ''.mp3''}"
proof -
  from lower_suffix_shape[of p] show ?thesis
  proof
    assume "lower (suffix p) = []"
    then show ?thesis by (simp add: lstrip_dots_def)
  next
    assume "\<exists>r. lower (suffix p) = CHR ''.'' # r \<and> CHR ''.'' \<notin> set r"
    then obtain r where r: "lower (suffix p) = CHR ''.'' # r" by blast
    then show ?thesis unfolding lstrip_dots_lower_suffix by simp
  qed
qed

text \<open>
  Claim C5. \<open>encode_audio_for_api\<close> ends the program with an error message for every path
  at which nothing exists and for every path whose extension, in lower case, is neither
  \<open>.wav\<close> nor \<open>.mp3\<close>; for every existing file with one of these extensions it returns
  the extension in lower case without its dot, and the base64 encoding of the file's
  bytes.
\<close>

theorem encode_audio_for_api_spec:
  "(fs e path = None \<longrightarrow>
      encode_audio_for_api e path =
        Inl (SysExit (Message (''[!] Audio file not found: '' @ resolve e path)))) \<and>
   (lower (suffix path) \<notin> {''.wav'', ''.mp3''} \<longrightarrow>
      (\<exists>msg. encode_audio_for_api e path = Inl (SysExit (Message msg)))) \<and>
   (fs e path = Some (File data) \<and> lower (suffix path) \<in> {''.wav'', ''.mp3''} \<longrightarrow>
      encode_audio_for_api e path = Inr (drop 1 (lower (suffix path)), b64encode data))"
proof (intro conjI impI)
  assume "fs e path = None"
  then show "encode_audio_for_api e path =
        Inl (SysExit (Message (''[!] Audio file not found: '' @ resolve e path)))"
    by (simp add: encode_audio_for_api_def)
next
  assume "lower (suffix path) \<notin> {''.wav'', ''.mp3''}"
  then have "lstrip_dots (lower (suffix path)) \<notin> {''wav'', ''mp3''}"
    using fmt_accepted_iff[of path] by blast
  then show "\<exists>msg. encode_audio_for_api e path = Inl (SysExit (Message msg))"
    by (simp add: encode_audio_for_api_def Let_def)
next
  assume a: "fs e path = Some (File data) \<and> lower (suffix path) \<in> {''.wav'', ''.mp3''}"
  then have "lstrip_dots (lower (suffix path)) \<in> {''wav'', ''mp3''}"
    using fmt_accepted_iff[of path] by blast
  with a show "encode_audio_for_api e path = Inr (drop 1 (lower (suffix path)), b64encode data)"
    by (simp add: encode_audio_for_api_def Let_def lstrip_dots_lower_suffix)
qed

lemma ex_suffix_mp3: "lower (suffix ''takes/Take1.MP3'') = ''.mp3''"
  by code_simp

lemma ex_suffix_txt: "lower (suffix ''notes.txt'') = ''.txt''"
  by code_simp

lemma ex_b64: "b64encode ''hello world'' = ''aGVsbG8gd29ybGQ=''"
  by code_simp

theorem encode_audio_for_api_spec_witness:
  "fs complete_at_once ''missing.wav'' = None \<and>
   encode_audio_for_api complete_at_once ''missing.wav'' =
     Inl (SysExit (Message ''[!] Audio file not found: /home/user/missing.wav'')) \<and>
   lower (suffix ''notes.txt'') = ''.txt'' \<and>
   (\<exists>msg. encode_audio_for_api complete_at_once ''notes.txt'' = Inl (SysExit (Message msg))) \<and>
   fs complete_at_once ''takes/Take1.MP3'' = Some (File ''hello world'') \<and>
   lower (suffix ''takes/Take1.MP3'') = ''.mp3'' \<and>
   encode_audio_for_api complete_at_once ''takes/Take1.MP3'' = Inr (''mp3'', ''aGVsbG8gd29ybGQ='')"
proof -
  have a: "fs complete_at_once ''missing.wav'' = None"
    by (simp add: complete_at_once_def example_env_def)
  have b: "fs complete_at_once ''takes/Take1.MP3'' = Some (File ''hello world'')"
    by (simp add: complete_at_once_def example_env_def)
  have c: "resolve complete_at_once ''missing.wav'' = ''/home/user/missing.wav''"
    by (simp add: complete_at_once_def example_env_def)
  from encode_audio_for_api_spec[of complete_at_once "''missing.wav''"] a c
  have one: "encode_audio_for_api complete_at_once ''missing.wav'' =
     Inl (SysExit (Message ''[!] Audio file not found: /home/user/missing.wav''))" by simp
  from encode_audio_for_api_spec[of complete_at_once "''notes.txt''"] ex_suffix_txt
  have two: "\<exists>msg. encode_audio_for_api complete_at_once ''notes.txt'' = Inl (SysExit (Message msg))"
    by simp
  from encode_audio_for_api_spec[of complete_at_once "''takes/Take1.MP3''" "''hello world''"]
    b ex_suffix_mp3 ex_b64
  have three: "encode_audio_for_api complete_at_once ''takes/Take1.MP3'' =
      Inr (''mp3'', ''aGVsbG8gd29ybGQ='')" by simp
  from a b one two three ex_suffix_mp3 ex_suffix_txt show ?thesis by simp
qed

section \<open>The main program\<close>

lemma save_and_preview_outcome:
  "fst (save_and_preview e parsed txt finish w) =
     (if encodable parsed then Finished else Uncaught ''UnicodeEncodeError'')"
  by (simp add: save_and_preview_def save_json_def Let_def)

lemma save_and_preview_written:
  "written (snd (save_and_preview e parsed txt finish w)) =
     written w @ [(timestamped_name (clock e (ticks w)) ''analysis_result'' ''json'',
                   if encodable parsed then JsonDoc parsed else DumpPrefix parsed)]"
  by (simp add: save_and_preview_def save_json_def print_def Let_def)

lemma save_and_preview_requests:
  "requests (snd (save_and_preview e parsed txt finish w)) = requests w"
  by (simp add: save_and_preview_def save_json_def print_def Let_def)

lemma main_direct:
  assumes "environ e ''OPENAI_API_KEY'' = Some key" "key \<noteq> []"
    and "encode_audio_for_api e AUDIO_PATH = Inr (fmt, b64)"
    and "parse_json_or_raise loads (reply_text (api e (CallModel fmt b64 MAX_TOKENS_PRIMARY))) = Inr v"
    and "v \<noteq> JNull"
    and "finish_reason (api e (CallModel fmt b64 MAX_TOKENS_PRIMARY)) \<noteq> ''length''"
  shows "main loads e =
    save_and_preview e v (reply_text (api e (CallModel fmt b64 MAX_TOKENS_PRIMARY)))
      (finish_reason (api e (CallModel fmt b64 MAX_TOKENS_PRIMARY)))
      (initial_world\<lparr>requests := [CallModel fmt b64 MAX_TOKENS_PRIMARY]\<rparr>)"
  using assms by (simp add: main_def call_model_def initial_world_def Let_def)


lemma main_continue_ok:
  assumes "environ e ''OPENAI_API_KEY'' = Some key" "key \<noteq> []"
    and "encode_audio_for_api e AUDIO_PATH = Inr (fmt, b64)"
    and "continues loads e fmt b64"
    and "parse_json_or_raise loads (reply_text (api e (continuation_request e fmt b64))) = Inr v2"
  shows "fst (main loads e) =
      (if encodable v2 then Finished else Uncaught ''UnicodeEncodeError'')"
    and "requests (snd (main loads e)) = [CallModel fmt b64 MAX_TOKENS_PRIMARY, continuation_request e fmt b64]"
    and "written (snd (main loads e)) = raw_saved loads e fmt b64 @
      [(timestamped_name (clock e (length (raw_saved loads e fmt b64))) ''analysis_result'' ''json'',
        if encodable v2 then JsonDoc v2 else DumpPrefix v2)]"
proof -
  let ?r1 = "api e (CallModel fmt b64 MAX_TOKENS_PRIMARY)"
  show "fst (main loads e) =
      (if encodable v2 then Finished else Uncaught ''UnicodeEncodeError'')"
    using assms
    by (cases "parse_json_or_raise loads (reply_text ?r1)")
       (auto simp: main_def call_model_def continue_if_truncated_def initial_world_def Let_def
          continues_def continuation_request_def save_and_preview_outcome save_raw_text_def
          print_def split: prod.splits)
  show "requests (snd (main loads e)) =
      [CallModel fmt b64 MAX_TOKENS_PRIMARY, continuation_request e fmt b64]"
    using assms
    by (cases "parse_json_or_raise loads (reply_text ?r1)")
       (auto simp: main_def call_model_def continue_if_truncated_def initial_world_def Let_def
          continues_def continuation_request_def save_and_preview_requests save_raw_text_def
          print_def split: prod.splits)
  show "written (snd (main loads e)) = raw_saved loads e fmt b64 @
      [(timestamped_name (clock e (length (raw_saved loads e fmt b64))) ''analysis_result'' ''json'',
        if encodable v2 then JsonDoc v2 else DumpPrefix v2)]"
    using assms
    by (cases "parse_json_or_raise loads (reply_text ?r1)")
       (auto simp: main_def call_model_def continue_if_truncated_def initial_world_def Let_def
          continues_def continuation_request_def save_and_preview_written save_raw_text_def
          print_def raw_saved_def split: prod.splits)
qed

lemma main_continue_fail:
  assumes "environ e ''OPENAI_API_KEY'' = Some key" "key \<noteq> []"
    and "encode_audio_for_api e AUDIO_PATH = Inr (fmt, b64)"
    and "continues loads e fmt b64"
    and "parse_json_or_raise loads (reply_text (api e (continuation_request e fmt b64))) = Inl err"
  shows "fst (main loads e) = SysExit (Status 1)"
    and "requests (snd (main loads e)) = [CallModel fmt b64 MAX_TOKENS_PRIMARY, continuation_request e fmt b64]"
    and "written (snd (main loads e)) = raw_saved loads e fmt b64 @
      [(timestamped_name (clock e (length (raw_saved loads e fmt b64)))
          ''analysis_result_raw_continuation'' ''txt'',
        RawText (reply_text (api e (continuation_request e fmt b64))))]"
proof -
  let ?r1 = "api e (CallModel fmt b64 MAX_TOKENS_PRIMARY)"
  show "fst (main loads e) = SysExit (Status 1)"
    using assms
    by (cases "parse_json_or_raise loads (reply_text ?r1)")
       (auto simp: main_def call_model_def continue_if_truncated_def initial_world_def Let_def
          continues_def continuation_request_def save_raw_text_def
          print_def split: prod.splits)
  show "requests (snd (main loads e)) =
      [CallModel fmt b64 MAX_TOKENS_PRIMARY, continuation_request e fmt b64]"
    using assms
    by (cases "parse_json_or_raise loads (reply_text ?r1)")
       (auto simp: main_def call_model_def continue_if_truncated_def initial_world_def Let_def
          continues_def continuation_request_def save_raw_text_def
          print_def split: prod.splits)
  show "written (snd (main loads e)) = raw_saved loads e fmt b64 @
      [(timestamped_name (clock e (length (raw_saved loads e fmt b64)))
          ''analysis_result_raw_continuation'' ''txt'',
        RawText (reply_text (api e (continuation_request e fmt b64))))]"
    using assms
    by (cases "parse_json_or_raise loads (reply_text ?r1)")
       (auto simp: main_def call_model_def continue_if_truncated_def initial_world_def Let_def
          continues_def continuation_request_def save_raw_text_def
          print_def raw_saved_def split: prod.splits)
qed

lemma main_no_continuation:
  assumes "environ e ''OPENAI_API_KEY'' = Some key" "key \<noteq> []"
    and "encode_audio_for_api e AUDIO_PATH = Inr (fmt, b64)"
    and "\<not> continues loads e fmt b64"
  shows "\<exists>v. parse_json_or_raise loads (reply_text (api e (CallModel fmt b64 MAX_TOKENS_PRIMARY))) = Inr v \<and>
      v \<noteq> JNull \<and>
      fst (main loads e) =
        (if encodable v then Finished else Uncaught ''UnicodeEncodeError'') \<and>
      requests (snd (main loads e)) = [CallModel fmt b64 MAX_TOKENS_PRIMARY] \<and>
      written (snd (main loads e)) =
        [(timestamped_name (clock e 0) ''analysis_result'' ''json'',
          if encodable v then JsonDoc v else DumpPrefix v)]"
proof -
  let ?r1 = "api e (CallModel fmt b64 MAX_TOKENS_PRIMARY)"
  from assms(4) obtain v where v: "parse_json_or_raise loads (reply_text ?r1) = Inr v"
    "v \<noteq> JNull" "finish_reason ?r1 \<noteq> ''length''"
    by (cases "parse_json_or_raise loads (reply_text ?r1)") (auto simp: continues_def Let_def)
  from main_direct[OF assms(1-3) v] v(1,2) show ?thesis
    by (simp add: save_and_preview_outcome save_and_preview_written save_and_preview_requests
        initial_world_def)
qed

lemma main_stops_before_call:
  assumes "environ e ''OPENAI_API_KEY'' = None \<or> environ e ''OPENAI_API_KEY'' = Some [] \<or>
           (\<exists>stop. encode_audio_for_api e AUDIO_PATH = Inl stop)"
  shows "requests (snd (main loads e)) = [] \<and> written (snd (main loads e)) = []"
  using assms by (auto simp: main_def initial_world_def)



lemma main_requests:
  "requests (snd (main loads e)) = [] \<or>
   (\<exists>fmt b64. requests (snd (main loads e)) = [CallModel fmt b64 MAX_TOKENS_PRIMARY] \<or>
      requests (snd (main loads e)) =
        [CallModel fmt b64 MAX_TOKENS_PRIMARY, continuation_request e fmt b64])"
proof (cases "environ e ''OPENAI_API_KEY'' = None \<or> environ e ''OPENAI_API_KEY'' = Some [] \<or>
           (\<exists>stop. encode_audio_for_api e AUDIO_PATH = Inl stop)")
  case True
  from main_stops_before_call[OF True] show ?thesis by simp
next
  case False
  then obtain key fmt b64 where k: "environ e ''OPENAI_API_KEY'' = Some key" "key \<noteq> []"
    and a: "encode_audio_for_api e AUDIO_PATH = Inr (fmt, b64)"
    by (cases "environ e ''OPENAI_API_KEY''"; cases "encode_audio_for_api e AUDIO_PATH") auto
  show ?thesis
  proof (cases "continues loads e fmt b64")
    case False
    from main_no_continuation[OF k a False] show ?thesis by blast
  next
    case True
    show ?thesis
    proof (cases "parse_json_or_raise loads (reply_text (api e (continuation_request e fmt b64)))")
      case (Inl err)
      from main_continue_fail(2)[OF k a True Inl] show ?thesis by blast
    next
      case (Inr v2)
      from main_continue_ok(2)[OF k a True Inr] show ?thesis by blast
    qed
  qed
qed



lemma example_env_key: "environ (example_env r) ''OPENAI_API_KEY'' = Some ''sk-test''"
  by (simp add: example_env_def)

lemma ex_b64_sample: "b64encode ''Man'' = ''TWFu''"
  by code_simp

lemma ex_suffix_sample: "lstrip_dots (lower (suffix ''sample.wav'')) = ''wav''"
  by code_simp

lemma example_env_audio:
  "encode_audio_for_api (example_env r) AUDIO_PATH = Inr (''wav'', ''TWFu'')"
  by (simp add: encode_audio_for_api_def AUDIO_PATH_def example_env_def ex_suffix_sample
      ex_b64_sample Let_def del: b64encode.simps)

lemma ex_parse_empty_object: "parse_json_or_raise json_loads ''{}'' = Inr (JObject [])"
  by (simp add: parse_json_or_raise_def parse_json_traced_direct[of json_loads, OF ex_empty_object])

lemma ex_parse_null: "parse_json_or_raise json_loads ''null'' = Inr JNull"
proof -
  have "json_loads ''null'' = Some JNull" by code_simp
  then show ?thesis by (simp add: parse_json_or_raise_def parse_json_traced_direct)
qed




lemma strftime_noon_1: "strftime (noon\<lparr>minute := 1\<rparr>) = ''2024-03-09_12-01-07''"
proof -
  have v: "valid_datetime (noon\<lparr>minute := 1\<rparr>)"
    by (simp add: valid_datetime_def noon_def)
  show ?thesis
    unfolding strftime_explicit[OF v]
    by (simp add: noon_def digit_chars digit_char_0 digit_char_Suc_0)
qed

lemma example_env_clock_0: "clock (example_env r) 0 = noon"
  by (simp add: example_env_def noon_def)

lemma example_env_clock_1: "clock (example_env r) (Suc 0) = noon\<lparr>minute := 1\<rparr>"
  by (simp add: example_env_def)








lemma ex_primary_null:
  "api null_then_complete (CallModel ''wav'' ''TWFu'' MAX_TOKENS_PRIMARY) =
     \<lparr>finish_reason = ''stop'', reply_text = ''null''\<rparr>"
  by (simp add: null_then_complete_def example_env_def replies_of_def)




text \<open>
  Claim C2 at the reply \<open>null\<close>: the text parses as JSON and the reply was not cut off, and
  the run sends the continuation request all the same, since the parsed value is Python's
  \<open>None\<close>, the value that stands for a failed parse. The rest of the claim holds:
  \<open>main_requests\<close> (the first request, then at most one continuation),
  \<open>main_continuation_iff\<close> (the continuation is sent exactly when the first parse raises or
  returns \<open>None\<close>, or the reply was cut off) and \<open>main_continue_fail\<close> (a continuation that
  does not parse is saved as raw text and the run exits with status 1).
\<close>

theorem main_null_reply_continues:
  "reply_text (api null_then_complete (CallModel ''wav'' ''TWFu'' 8000)) = ''null'' \<and>
   finish_reason (api null_then_complete (CallModel ''wav'' ''TWFu'' 8000)) = ''stop'' \<and>
   parse_json_or_raise json_loads ''null'' = Inr JNull \<and>
   requests (snd (main json_loads null_then_complete)) =
     [CallModel ''wav'' ''TWFu'' 8000, ContinueIfTruncated ''wav'' ''TWFu'' ''null'' 9000] \<and>
   written (snd (main json_loads null_then_complete)) =
     [(''analysis_result_2024-03-09_12-00-07.json'', JsonDoc (JObject []))]"
proof -
  have k: "environ null_then_complete ''OPENAI_API_KEY'' = Some ''sk-test''" "''sk-test'' \<noteq> []"
    by (simp_all add: null_then_complete_def example_env_key)
  have a: "encode_audio_for_api null_then_complete AUDIO_PATH = Inr (''wav'', ''TWFu'')"
    by (simp add: null_then_complete_def example_env_audio)
  have c: "continues json_loads null_then_complete ''wav'' ''TWFu''"
    by (simp add: continues_def ex_primary_null ex_parse_null)
  have cr: "continuation_request null_then_complete ''wav'' ''TWFu'' =
      ContinueIfTruncated ''wav'' ''TWFu'' ''null'' 9000"
    by (simp add: continuation_request_def ex_primary_null MAX_TOKENS_CONTINUE_def)
  have r2: "api null_then_complete (ContinueIfTruncated ''wav'' ''TWFu'' ''null'' 9000) =
     \<lparr>finish_reason = ''stop'', reply_text = ''{}''\<rparr>"
    by (simp add: null_then_complete_def example_env_def replies_of_def)
  have p: "parse_json_or_raise json_loads
     (reply_text (api null_then_complete
        (continuation_request null_then_complete ''wav'' ''TWFu''))) = Inr (JObject [])"
    by (simp add: cr r2 ex_parse_empty_object)
  have r: "raw_saved json_loads null_then_complete ''wav'' ''TWFu'' = []"
    by (simp add: raw_saved_def ex_primary_null ex_parse_null)
  have n: "clock null_then_complete 0 = noon"
    by (simp add: null_then_complete_def example_env_clock_0)
  from main_continue_ok[OF k a c p] r cr n
  show ?thesis
    by (simp add: ex_primary_null[unfolded MAX_TOKENS_PRIMARY_def] ex_parse_null
        timestamped_name_def strftime_noon MAX_TOKENS_PRIMARY_def)
qed

section \<open>The GUI and its workers\<close>

lemma consistent_alt:
  "consistent s \<longleftrightarrow>
     after_timers (ui s) = (if in_poll s then [] else [100]) \<and>
     ((workers s = [] \<and>
       (if running (ui s) then sentinel_at_end_only (output_queue (ui s))
        else output_queue (ui s) = []) \<and>
       log_text (ui s) @ lines_of (output_queue (ui s)) = expected_log s) \<or>
      (workers s = [Starting] \<and> running (ui s) \<and> output_queue (ui s) = [] \<and>
       log_text (ui s) = []) \<or>
      (\<exists>ps. workers s = [Streaming ps] \<and> running (ui s) \<and>
         None \<notin> set (output_queue (ui s)) \<and> ps \<noteq> [] \<and> sentinel_at_end_only ps \<and>
         log_text (ui s) @ lines_of (output_queue (ui s)) @ lines_of ps = expected_log s))"
  unfolding consistent_def
  by (cases "workers s" rule: list.exhaust; simp split: list.splits worker.splits) 

lemma consistent_timers:
  "consistent s \<Longrightarrow> after_timers (ui s) = (if in_poll s then [] else [100])"
  by (simp add: consistent_alt)

lemma consistent_cases:
  assumes "consistent s"
  obtains (idle) "workers s = []"
        "if running (ui s) then sentinel_at_end_only (output_queue (ui s))
         else output_queue (ui s) = []"
        "log_text (ui s) @ lines_of (output_queue (ui s)) = expected_log s"
    | (starting) "workers s = [Starting]" "running (ui s)" "output_queue (ui s) = []"
        "log_text (ui s) = []"
    | (streaming) ps where "workers s = [Streaming ps]" "running (ui s)"
        "None \<notin> set (output_queue (ui s))" "ps \<noteq> []" "sentinel_at_end_only ps"
        "log_text (ui s) @ lines_of (output_queue (ui s)) @ lines_of ps = expected_log s"
  using assms unfolding consistent_alt by blast

lemma consistentI_idle:
  "after_timers (ui s) = (if in_poll s then [] else [100]) \<Longrightarrow> workers s = [] \<Longrightarrow>
   (if running (ui s) then sentinel_at_end_only (output_queue (ui s))
    else output_queue (ui s) = []) \<Longrightarrow>
   log_text (ui s) @ lines_of (output_queue (ui s)) = expected_log s \<Longrightarrow> consistent s"
  unfolding consistent_alt by blast

lemma consistentI_starting:
  "after_timers (ui s) = (if in_poll s then [] else [100]) \<Longrightarrow> workers s = [Starting] \<Longrightarrow>
   running (ui s) \<Longrightarrow> output_queue (ui s) = [] \<Longrightarrow> log_text (ui s) = [] \<Longrightarrow>
   consistent s"
  unfolding consistent_alt by blast

lemma consistentI_streaming:
  "after_timers (ui s) = (if in_poll s then [] else [100]) \<Longrightarrow> workers s = [Streaming ps] \<Longrightarrow>
   running (ui s) \<Longrightarrow> None \<notin> set (output_queue (ui s)) \<Longrightarrow> ps \<noteq> [] \<Longrightarrow>
   sentinel_at_end_only ps \<Longrightarrow>
   log_text (ui s) @ lines_of (output_queue (ui s)) @ lines_of ps = expected_log s \<Longrightarrow>
   consistent s"
  unfolding consistent_alt by blast

lemma lines_of_Nil [simp]: "lines_of [] = []"
  by (simp add: lines_of_def)

lemma lines_of_Cons [simp]:
  "lines_of (m # ms) = (case m of Some l \<Rightarrow> l | None \<Rightarrow> []) @ lines_of ms"
  by (simp add: lines_of_def)

lemma lines_of_append [simp]: "lines_of (xs @ ys) = lines_of xs @ lines_of ys"
  by (simp add: lines_of_def)

lemma lines_of_map_Some [simp]: "lines_of (map Some ls) = concat ls"
  by (induction ls) simp_all

lemma transcript_Child: "transcript (Child lines rc) = concat lines @ finished_line rc"
  by (simp add: transcript_def)

lemma sentinel_at_end_only_Nil [simp]: "sentinel_at_end_only []"
  by (simp add: sentinel_at_end_only_def)

lemma sentinel_at_end_only_puts: "sentinel_at_end_only (run_process_puts result)"
  by (cases result) (auto simp: sentinel_at_end_only_def butlast_append dest: in_set_butlastD)

lemma consistent_init: "consistent init_system"
  by (simp add: consistent_alt init_system_def init_gui_def expected_log_def)

lemma expected_log_ui [simp]: "expected_log (s\<lparr>ui := g\<rparr>) = expected_log s"
  by (simp add: expected_log_def)

lemma expected_log_in_poll [simp]: "expected_log (s\<lparr>in_poll := b\<rparr>) = expected_log s"
  by (simp add: expected_log_def)

lemma expected_log_workers [simp]: "expected_log (s\<lparr>workers := ws\<rparr>) = expected_log s"
  by (simp add: expected_log_def)

lemma consistent_select:
  assumes "consistent s"
  shows "consistent (s\<lparr>ui := select_file path (ui s)\<rparr>)"
proof -
  note t = consistent_timers[OF assms]
  from assms show ?thesis
  proof (cases rule: consistent_cases)
    case idle
    with t show ?thesis
      by (intro consistentI_idle) (simp_all add: select_file_def)
  next
    case starting
    with t show ?thesis
      by (intro consistentI_starting) (simp_all add: select_file_def)
  next
    case (streaming ps)
    with t show ?thesis
      by (intro consistentI_streaming[where ps = ps]) (simp_all add: select_file_def)
  qed
qed

lemma run_analysis_started:
  assumes "snd (run_analysis exists base_dir g)"
  shows "\<not> running g \<and>
     fst (run_analysis exists base_dir g) =
       g\<lparr>log_text := [], running := True, run_button := Disabled\<rparr>"
proof -
  have a: "exists (RUN_SCRIPT base_dir)"
    using assms by (rule contrapos_pp) (simp add: run_analysis_def)
  have b: "\<not> (audio_path g = None \<or> audio_path g = Some [])"
    using assms a by (rule_tac notI) (simp add: run_analysis_def)
  have c: "\<not> running g"
    using assms a b by (rule_tac notI) (simp add: run_analysis_def)
  have d: "exists (the (audio_path g))"
    using assms a b c by (rule_tac ccontr) (simp add: run_analysis_def)
  from b have b1: "audio_path g \<noteq> None" and b2: "audio_path g \<noteq> Some []" by simp_all
  from a b1 b2 c d show ?thesis by (auto simp: run_analysis_def)
qed

lemma run_analysis_not_started:
  assumes "\<not> snd (run_analysis exists base_dir g)"
  shows "\<exists>ds. fst (run_analysis exists base_dir g) = g\<lparr>dialogs := ds\<rparr>"
proof -
  consider (missing) "\<not> exists (RUN_SCRIPT base_dir)"
    | (no_audio) "exists (RUN_SCRIPT base_dir)" "audio_path g = None \<or> audio_path g = Some []"
    | (busy) "exists (RUN_SCRIPT base_dir)" "\<not> (audio_path g = None \<or> audio_path g = Some [])"
        "running g"
    | (gone) "exists (RUN_SCRIPT base_dir)" "\<not> (audio_path g = None \<or> audio_path g = Some [])"
        "\<not> running g" "\<not> exists (the (audio_path g))"
    | (go) "exists (RUN_SCRIPT base_dir)" "\<not> (audio_path g = None \<or> audio_path g = Some [])"
        "\<not> running g" "exists (the (audio_path g))"
    by blast
  then show ?thesis
  proof cases
    case missing
    then have "fst (run_analysis exists base_dir g) = g\<lparr>dialogs := dialogs g @
       [ShowError ''Missing Script'' (''Could not find run.py at '' @ RUN_SCRIPT base_dir)]\<rparr>"
      by (simp add: run_analysis_def)
    then show ?thesis by (rule exI)
  next
    case no_audio
    then have "fst (run_analysis exists base_dir g) = g\<lparr>dialogs := dialogs g @
       [ShowWarning ''No Audio'' ''Please select an audio file first.'']\<rparr>"
      by (simp add: run_analysis_def)
    then show ?thesis by (rule exI)
  next
    case busy
    then have "fst (run_analysis exists base_dir g) = g\<lparr>dialogs := dialogs g\<rparr>"
      by (simp add: run_analysis_def)
    then show ?thesis by (rule exI)
  next
    case gone
    then have "fst (run_analysis exists base_dir g) = g\<lparr>dialogs := dialogs g @
       [ShowError ''File Missing'' ''The selected audio file no longer exists.'']\<rparr>"
      by (simp add: run_analysis_def)
    then show ?thesis by (rule exI)
  next
    case go
    then have "snd (run_analysis exists base_dir g)" by (simp add: run_analysis_def)
    with assms show ?thesis by simp
  qed
qed

lemma consistent_click:
  assumes "consistent s"
  shows "consistent (click_run exists base_dir s)"
proof (cases "snd (run_analysis exists base_dir (ui s))")
  case True
  from run_analysis_started[OF True] have nr: "\<not> running (ui s)"
    and g: "fst (run_analysis exists base_dir (ui s)) =
       (ui s)\<lparr>log_text := [], running := True, run_button := Disabled\<rparr>" by blast+
  have c: "click_run exists base_dir s =
      s\<lparr>ui := (ui s)\<lparr>log_text := [], running := True, run_button := Disabled\<rparr>,
        workers := workers s @ [Starting]\<rparr>"
    using True g by (simp add: click_run_def split_beta)
  note t = consistent_timers[OF assms]
  from assms show ?thesis
  proof (cases rule: consistent_cases)
    case idle
    with t nr show ?thesis
      unfolding c by (intro consistentI_starting) simp_all
  next
    case starting
    with nr show ?thesis by simp
  next
    case (streaming ps)
    with nr show ?thesis by simp
  qed
next
  case False
  from run_analysis_not_started[OF False] obtain ds where
    g: "fst (run_analysis exists base_dir (ui s)) = (ui s)\<lparr>dialogs := ds\<rparr>" by blast
  have c: "click_run exists base_dir s = s\<lparr>ui := (ui s)\<lparr>dialogs := ds\<rparr>\<rparr>"
    using False g by (simp add: click_run_def split_beta)
  note t = consistent_timers[OF assms]
  from assms show ?thesis
  proof (cases rule: consistent_cases)
    case idle
    with t show ?thesis
      unfolding c by (intro consistentI_idle) simp_all
  next
    case starting
    with t show ?thesis
      unfolding c by (intro consistentI_starting) simp_all
  next
    case (streaming ps)
    with t show ?thesis
      unfolding c by (intro consistentI_streaming[where ps = ps]) simp_all
  qed
qed

lemma consistent_fire:
  assumes "consistent s" "\<not> in_poll s" "after_timers (ui s) = d # ds"
  shows "consistent (s\<lparr>ui := (ui s)\<lparr>after_timers := ds\<rparr>, in_poll := True\<rparr>)"
proof -
  from assms have e: "ds = []" using consistent_timers[OF assms(1)] by simp
  from assms(1) show ?thesis
  proof (cases rule: consistent_cases)
    case idle
    with e show ?thesis
      by (intro consistentI_idle) simp_all
  next
    case starting
    with e show ?thesis
      by (intro consistentI_starting) simp_all
  next
    case (streaming ps)
    with e show ?thesis
      by (intro consistentI_streaming[where ps = ps]) simp_all
  qed
qed

lemma sentinel_at_end_only_Cons_None: "sentinel_at_end_only (None # rest) \<Longrightarrow> rest = []"
  by (cases rest) (auto simp: sentinel_at_end_only_def)

lemma sentinel_at_end_only_Cons_Some:
  "sentinel_at_end_only (Some m # rest) \<Longrightarrow> sentinel_at_end_only rest"
  by (cases rest) (auto simp: sentinel_at_end_only_def)

lemma sentinel_at_end_only_snoc:
  "None \<notin> set ms \<Longrightarrow> sentinel_at_end_only (ms @ [m])"
  by (simp add: sentinel_at_end_only_def)

lemma poll_step_empty:
  "output_queue (ui s) = [] \<Longrightarrow>
   poll_step s = s\<lparr>ui := reschedule (ui s), in_poll := False\<rparr>"
  by (simp add: poll_step_def poll_iteration_def)

lemma poll_step_sentinel:
  "output_queue (ui s) = None # rest \<Longrightarrow>
   poll_step s =
     s\<lparr>ui := reschedule ((ui s)\<lparr>output_queue := rest, running := False, run_button := Normal\<rparr>),
       in_poll := False\<rparr>"
  by (simp add: poll_step_def poll_iteration_def)

lemma poll_step_line:
  "output_queue (ui s) = Some l # rest \<Longrightarrow>
   poll_step s = s\<lparr>ui := (ui s)\<lparr>output_queue := rest, log_text := log_text (ui s) @ l\<rparr>\<rparr>"
  by (simp add: poll_step_def poll_iteration_def)

lemma consistent_poll:
  assumes "consistent s" "in_poll s"
  shows "consistent (poll_step s)"
proof -
  from consistent_timers[OF assms(1)] assms(2) have t: "after_timers (ui s) = []" by simp
  show ?thesis
  proof (cases "output_queue (ui s)")
    case Nil
    from assms(1) show ?thesis
    proof (cases rule: consistent_cases)
      case idle
      from idle t Nil show ?thesis
        unfolding poll_step_empty[OF Nil]
        by (intro consistentI_idle) (simp_all add: reschedule_def)
    next
      case starting
      with t Nil show ?thesis
        unfolding poll_step_empty[OF Nil]
        by (intro consistentI_starting) (simp_all add: reschedule_def)
    next
      case (streaming ps)
      with t Nil show ?thesis
        unfolding poll_step_empty[OF Nil]
        by (intro consistentI_streaming[where ps = ps]) (simp_all add: reschedule_def)
    qed
  next
    case (Cons m rest)
    show ?thesis
    proof (cases m)
      case None
      with Cons have q: "output_queue (ui s) = None # rest" by simp
      from assms(1) show ?thesis
      proof (cases rule: consistent_cases)
        case idle
        with q have r: "sentinel_at_end_only (None # rest)"
          by (auto split: if_splits)
        from sentinel_at_end_only_Cons_None[OF r] have e: "rest = []" .
        from idle q e t show ?thesis
          unfolding poll_step_sentinel[OF q]
          by (intro consistentI_idle) (simp_all add: reschedule_def)
      next
        case starting
        with q show ?thesis by simp
      next
        case (streaming ps)
        with q show ?thesis by simp
      qed
    next
      case (Some l)
      with Cons have q: "output_queue (ui s) = Some l # rest" by simp
      from assms(1) show ?thesis
      proof (cases rule: consistent_cases)
        case idle
        with q have r: "running (ui s)" "sentinel_at_end_only (Some l # rest)"
          by (auto split: if_splits)
        from sentinel_at_end_only_Cons_Some[OF r(2)] have e: "sentinel_at_end_only rest" .
        from idle q e r t assms(2) show ?thesis
          unfolding poll_step_line[OF q]
          by (intro consistentI_idle) simp_all
      next
        case starting
        with q show ?thesis by simp
      next
        case (streaming ps)
        with q t assms(2) show ?thesis
          unfolding poll_step_line[OF q]
          by (intro consistentI_streaming[where ps = ps]) simp_all
      qed
    qed
  qed
qed

lemma singleton_split: "[x] = ws @ y # ws' \<Longrightarrow> ws = [] \<and> ws' = [] \<and> x = y"
  by (cases ws) auto

lemma consistent_spawn:
  assumes "consistent s" "workers s = ws @ Starting # ws'"
  shows "consistent (s\<lparr>workers := ws @ (if run_process_puts result = [] then []
                              else [Streaming (run_process_puts result)]) @ ws',
          spawned := spawned s @ [run_process_cmd sys_executable (ui s)],
          last_run := Some result\<rparr>)"
  using assms(1)
proof (cases rule: consistent_cases)
  case idle
  with assms(2) show ?thesis by simp
next
  case starting
  with assms(2) have w: "ws = []" "ws' = []"
    using singleton_split[of Starting ws Starting ws'] by auto
  show ?thesis
  proof (cases "run_process_puts result = []")
    case True
    from consistent_timers[OF assms(1)] starting w True show ?thesis
      by (intro consistentI_idle) (simp_all add: expected_log_def transcript_def)
  next
    case False
    from consistent_timers[OF assms(1)] starting w False show ?thesis
      by (intro consistentI_streaming[where ps = "run_process_puts result"])
         (simp_all add: sentinel_at_end_only_puts expected_log_def transcript_def)
  qed
next
  case (streaming ps)
  with assms(2) show ?thesis
    using singleton_split[of "Streaming ps" ws Starting ws'] by auto
qed

lemma consistent_put:
  assumes "consistent s" "workers s = ws @ Streaming (m # ms) # ws'"
  shows "consistent (s\<lparr>ui := put m (ui s),
          workers := ws @ (if ms = [] then [] else [Streaming ms]) @ ws'\<rparr>)"
  using assms(1)
proof (cases rule: consistent_cases)
  case idle
  with assms(2) show ?thesis by simp
next
  case starting
  with assms(2) show ?thesis
    using singleton_split[of Starting ws "Streaming (m # ms)" ws'] by auto
next
  case (streaming ps)
  with assms(2) have w: "ws = []" "ws' = []" "ps = m # ms"
    using singleton_split[of "Streaming ps" ws "Streaming (m # ms)" ws'] by auto
  show ?thesis
  proof (cases "ms = []")
    case True
    from consistent_timers[OF assms(1)] streaming w True show ?thesis
      by (intro consistentI_idle)
         (simp_all add: put_def sentinel_at_end_only_snoc)
  next
    case False
    with streaming(5) w(3) have m: "m \<noteq> None" "sentinel_at_end_only ms"
      by (cases m; simp add: sentinel_at_end_only_def)+
    from m(1) obtain l where l: "m = Some l" by (cases m) auto
    from consistent_timers[OF assms(1)] streaming w False m l show ?thesis
      by (intro consistentI_streaming[where ps = ms]) (simp_all add: put_def)
  qed
qed

lemma consistent_step:
  assumes "consistent s" "step sys_executable base_dir s s'"
  shows "consistent s'"
  using assms(2)
proof (cases rule: step.cases)
  case (user_selects path)
  then show ?thesis using consistent_select[OF assms(1)] by simp
next
  case (user_clicks_run exists)
  then show ?thesis using consistent_click[OF assms(1)] by simp
next
  case (timer_fires d ds)
  then show ?thesis using consistent_fire[OF assms(1)] by simp
next
  case poll_takes
  then show ?thesis using consistent_poll[OF assms(1)] by simp
next
  case (worker_spawns ws ws' result)
  then show ?thesis using consistent_spawn[OF assms(1)] by simp
next
  case (worker_puts ws m ms ws')
  then show ?thesis using consistent_put[OF assms(1)] by simp
qed

lemma reachable_consistent: "reachable sys_executable base_dir s \<Longrightarrow> consistent s"
proof (induction rule: reachable.induct)
  case start
  show ?case by (rule consistent_init)
next
  case (after_step s s')
  from consistent_step[OF after_step.IH after_step.hyps(2)] show ?case .
qed

lemma do_action_step:
  assumes "do_action sys_executable base_dir a s = Some s'"
  shows "step sys_executable base_dir s s'"
proof (cases a)
  case (Select path)
  with assms have "\<not> in_poll s" "s' = s\<lparr>ui := select_file path (ui s)\<rparr>"
    by (auto simp: do_action_def split: if_splits)
  then show ?thesis by (simp add: step.user_selects)
next
  case Click
  with assms have "\<not> in_poll s" "s' = click_run (\<lambda>p. True) base_dir s"
    by (auto simp: do_action_def split: if_splits)
  then show ?thesis by (simp add: step.user_clicks_run)
next
  case Fire
  with assms obtain d ds where "\<not> in_poll s" "after_timers (ui s) = d # ds"
    "s' = s\<lparr>ui := (ui s)\<lparr>after_timers := ds\<rparr>, in_poll := True\<rparr>"
    by (auto simp: do_action_def split: if_splits list.splits)
  then show ?thesis by (simp add: step.timer_fires)
next
  case Poll
  with assms have "in_poll s" "s' = poll_step s"
    by (auto simp: do_action_def split: if_splits)
  then show ?thesis by (simp add: step.poll_takes)
next
  case (Spawn result)
  with assms obtain ws' where "workers s = [] @ Starting # ws'"
    "s' = s\<lparr>workers := [] @ (if run_process_puts result = [] then []
                                else [Streaming (run_process_puts result)]) @ ws',
          spawned := spawned s @ [run_process_cmd sys_executable (ui s)],
          last_run := Some result\<rparr>"
    by (auto simp: do_action_def split: list.splits worker.splits)
  then show ?thesis by (simp only: step.worker_spawns)
next
  case Put
  with assms obtain m ms ws' where "workers s = [] @ Streaming (m # ms) # ws'"
    "s' = s\<lparr>ui := put m (ui s),
          workers := [] @ (if ms = [] then [] else [Streaming ms]) @ ws'\<rparr>"
    by (auto simp: do_action_def split: list.splits worker.splits)
  then show ?thesis by (simp only: step.worker_puts)
qed

lemma run_actions_reachable:
  "reachable sys_executable base_dir s \<Longrightarrow>
   run_actions sys_executable base_dir as s = Some s' \<Longrightarrow>
   reachable sys_executable base_dir s'"
proof (induction as arbitrary: s)
  case Nil
  then show ?case by simp
next
  case (Cons a as)
  from Cons.prems(2) obtain s1 where a: "do_action sys_executable base_dir a s = Some s1"
    and r: "run_actions sys_executable base_dir as s1 = Some s'"
    by (auto split: option.splits)
  from reachable.after_step[OF Cons.prems(1) do_action_step[OF a]]
  have "reachable sys_executable base_dir s1" .
  from Cons.IH[OF this r] show ?case .
qed

lemma unsent_simps [simp]:
  "unsent [] = []" "unsent [Starting] = []" "unsent [Streaming ps] = ps"
  by (simp_all add: unsent_def)

declare poll_loop.simps [simp del]

lemma poll_loop_timers: "after_timers (poll_loop g) = after_timers g"
proof (induction g rule: poll_loop.induct)
  case (1 g)
  show ?case
  proof (cases "output_queue g")
    case Nil
    then show ?thesis by (subst poll_loop.simps) (simp add: poll_iteration_def)
  next
    case (Cons m rest)
    show ?thesis
    proof (cases m)
      case None
      with Cons show ?thesis by (subst poll_loop.simps) (simp add: poll_iteration_def)
    next
      case (Some l)
      with Cons have p: "poll_iteration g =
          (g\<lparr>output_queue := rest, log_text := log_text g @ l\<rparr>, True)"
        by (simp add: poll_iteration_def)
      from "1.IH"[OF p[symmetric] refl] p show ?thesis
        by (subst poll_loop.simps) simp
    qed
  qed
qed

lemma poll_loop_log:
  "log_text (poll_loop g) =
     log_text g @ lines_of (takeWhile (\<lambda>m. m \<noteq> None) (output_queue g))"
proof (induction g rule: poll_loop.induct)
  case (1 g)
  show ?case
  proof (cases "output_queue g")
    case Nil
    then show ?thesis by (subst poll_loop.simps) (simp add: poll_iteration_def)
  next
    case (Cons m rest)
    show ?thesis
    proof (cases m)
      case None
      with Cons show ?thesis by (subst poll_loop.simps) (simp add: poll_iteration_def)
    next
      case (Some l)
      with Cons have p: "poll_iteration g =
          (g\<lparr>output_queue := rest, log_text := log_text g @ l\<rparr>, True)"
        by (simp add: poll_iteration_def)
      from "1.IH"[OF p[symmetric] refl] p Cons Some show ?thesis
        by (subst poll_loop.simps) simp
    qed
  qed
qed

text \<open>
  The numeral of an exit code: \<open>show_nat\<close> writes digits only, with no zero in front, and
  they are the digits of the number.
\<close>

lemma show_nat_digits: "list_all is_digit (show_nat n)"
proof (induction n rule: show_nat.induct)
  case (1 n)
  show ?case
  proof (cases "n < 10")
    case True
    then show ?thesis by (simp add: show_nat_1 is_digit_digit_char)
  next
    case False
    then have e: "show_nat n = show_nat (n div 10) @ [digit_char (n mod 10)]"
      by (subst show_nat.simps) simp
    from "1.IH"[OF False] show ?thesis
      unfolding e by (simp add: is_digit_digit_char)
  qed
qed

lemma digits_val_snoc:
  "digits_val (ds @ [d]) = 10 * digits_val ds + int (codepoint d - 0x30)"
  by (simp add: digits_val_def)

lemma int_div_mod_10: "int n = 10 * int (n div 10) + int (n mod 10)"
proof -
  have "n = 10 * (n div 10) + n mod 10" by simp
  then have "int n = int (10 * (n div 10) + n mod 10)" by (rule arg_cong)
  then show ?thesis by (simp only: of_nat_add of_nat_mult of_nat_numeral)
qed

lemma digits_val_show_nat: "digits_val (show_nat n) = int n"
proof (induction n rule: show_nat.induct)
  case (1 n)
  show ?case
  proof (cases "n < 10")
    case True
    then show ?thesis by (simp add: show_nat_1 digits_val_def codepoint_digit_char)
  next
    case False
    then have e: "show_nat n = show_nat (n div 10) @ [digit_char (n mod 10)]"
      by (subst show_nat.simps) simp
    have m: "codepoint (digit_char (n mod 10)) - 0x30 = n mod 10"
      by (simp add: codepoint_digit_char)
    from "1.IH"[OF False] int_div_mod_10[of n] show ?thesis
      unfolding e digits_val_snoc m by simp
  qed
qed

lemma show_nat_not_Nil: "show_nat n \<noteq> []"
  by (subst show_nat.simps) simp

lemma show_nat_leading_zero: "hd (show_nat n) = CHR ''0'' \<Longrightarrow> n = 0"
proof (induction n rule: show_nat.induct)
  case (1 n)
  show ?case
  proof (cases "n < 10")
    case True
    with "1.prems" have "digit_char n = digit_char 0"
      by (simp add: show_nat_1 digit_char_0)
    then have "codepoint (digit_char n) = codepoint (digit_char 0)" by simp
    with True show ?thesis by (simp add: codepoint_digit_char)
  next
    case False
    then have e: "show_nat n = show_nat (n div 10) @ [digit_char (n mod 10)]"
      by (subst show_nat.simps) simp
    from "1.prems" have "hd (show_nat (n div 10)) = CHR ''0''"
      unfolding e by (simp add: show_nat_not_Nil)
    from "1.IH"[OF False this] False show ?thesis by simp
  qed
qed

lemma show_int_nonneg:
  assumes "0 \<le> i"
  shows "list_all is_digit (show_int i)" "digits_val (show_int i) = i"
    "hd (show_int i) = CHR ''0'' \<longrightarrow> i = 0"
proof -
  from assms have e: "show_int i = show_nat (nat i)" by (simp add: show_int_def)
  show "list_all is_digit (show_int i)" unfolding e by (rule show_nat_digits)
  show "digits_val (show_int i) = i" unfolding e using assms by (simp add: digits_val_show_nat)
  show "hd (show_int i) = CHR ''0'' \<longrightarrow> i = 0"
    unfolding e using assms show_nat_leading_zero[of "nat i"] by auto
qed

lemma show_int_neg:
  assumes "i < 0"
  shows "hd (show_int i) = CHR ''-''" "list_all is_digit (tl (show_int i))"
    "digits_val (tl (show_int i)) = - i" "hd (tl (show_int i)) \<noteq> CHR ''0''"
proof -
  from assms have e: "show_int i = CHR ''-'' # show_nat (nat (- i))" by (simp add: show_int_def)
  show "hd (show_int i) = CHR ''-''" unfolding e by simp
  show "list_all is_digit (tl (show_int i))" unfolding e by (simp add: show_nat_digits)
  show "digits_val (tl (show_int i)) = - i"
    unfolding e using assms by (simp add: digits_val_show_nat)
  show "hd (tl (show_int i)) \<noteq> CHR ''0''"
    unfolding e using assms show_nat_leading_zero[of "nat (- i)"] by auto
qed

lemma finished_line_text:
  "finished_line return_code =
     [CHR 0x0A] @ ''[process] Finished with exit code '' @ show_int return_code @ [CHR 0x0A]"
  by (simp add: finished_line_def)

text \<open>
  Claim C7, as the program has it. The claim holds for a child that \<open>Popen\<close> starts and
  whose output is read to its end, not for every child: a worker can die before it has
  put what the child wrote (see the run with undecodable output in the last section). For
  such a child the worker puts the lines on the queue in the order written, then the line
  \<open>[process] Finished with exit code N\<close> after an empty line, \<open>N\<close> being the exit code in
  decimal (digits only, after a minus sign for a negative code, with no zero in front),
  then the sentinel. In every state the system can reach, whatever the interleaving of
  the worker and the GUI, the log, followed by the lines on the queue, followed by the
  lines the worker has still to put, is the child's output in order followed by that
  line; so the lines reach the log in that order, and once the sentinel is consumed (the
  flag is clear) the log is exactly that text. A poll appends the lines of the queue up
  to the sentinel, in order. Outside a poll exactly one call of \<open>_poll_queue\<close> is pending,
  100 ms ahead: every poll, also one that finds the queue empty or consumes the sentinel,
  asks for the next one.
\<close>

theorem log_follows_child_output:
  assumes "reachable sys_executable base_dir s"
  shows "(last_run s = Some (Child lines return_code) \<and> Starting \<notin> set (workers s) \<longrightarrow>
           log_text (ui s) @ lines_of (output_queue (ui s)) @ lines_of (unsent (workers s)) =
             concat lines @ [CHR 0x0A] @ ''[process] Finished with exit code '' @
               show_int return_code @ [CHR 0x0A])
       \<and> (last_run s = Some (Child lines return_code) \<and> \<not> running (ui s) \<longrightarrow>
           log_text (ui s) =
             concat lines @ [CHR 0x0A] @ ''[process] Finished with exit code '' @
               show_int return_code @ [CHR 0x0A])
       \<and> after_timers (ui s) = (if in_poll s then [] else [100])
       \<and> after_timers (poll_queue g) = after_timers g @ [100]
       \<and> log_text (poll_queue g) =
           log_text g @ lines_of (takeWhile (\<lambda>m. m \<noteq> None) (output_queue g))
       \<and> run_process_puts (Child lines return_code) =
           map Some lines @
             [Some ([CHR 0x0A] @ ''[process] Finished with exit code '' @
                      show_int return_code @ [CHR 0x0A]), None]
       \<and> (0 \<le> return_code \<longrightarrow>
            list_all is_digit (show_int return_code) \<and>
            digits_val (show_int return_code) = return_code \<and>
            (hd (show_int return_code) = CHR ''0'' \<longrightarrow> return_code = 0))
       \<and> (return_code < 0 \<longrightarrow>
            hd (show_int return_code) = CHR ''-'' \<and>
            list_all is_digit (tl (show_int return_code)) \<and>
            digits_val (tl (show_int return_code)) = - return_code \<and>
            hd (tl (show_int return_code)) \<noteq> CHR ''0'')"
proof -
  note c = reachable_consistent[OF assms]
  let ?out = "concat lines @ [CHR 0x0A] @ ''[process] Finished with exit code '' @
               show_int return_code @ [CHR 0x0A]"
  have t: "transcript (Child lines return_code) = ?out"
    unfolding transcript_Child finished_line_text by simp
  have one: "last_run s = Some (Child lines return_code) \<and> Starting \<notin> set (workers s) \<longrightarrow>
           log_text (ui s) @ lines_of (output_queue (ui s)) @ lines_of (unsent (workers s)) =
             ?out"
  proof
    assume h: "last_run s = Some (Child lines return_code) \<and> Starting \<notin> set (workers s)"
    then have e: "expected_log s = ?out"
      by (simp only: expected_log_def option.case t)
    from c show "log_text (ui s) @ lines_of (output_queue (ui s)) @ lines_of (unsent (workers s)) =
             ?out"
    proof (cases rule: consistent_cases)
      case idle
      with e show ?thesis by simp
    next
      case starting
      with h show ?thesis by simp
    next
      case (streaming ps)
      with e show ?thesis by simp
    qed
  qed
  have two: "last_run s = Some (Child lines return_code) \<and> \<not> running (ui s) \<longrightarrow>
           log_text (ui s) = ?out"
  proof
    assume h: "last_run s = Some (Child lines return_code) \<and> \<not> running (ui s)"
    then have e: "expected_log s = ?out"
      by (simp only: expected_log_def option.case t)
    from c show "log_text (ui s) = ?out"
    proof (cases rule: consistent_cases)
      case idle
      with e h show ?thesis by simp
    next
      case starting
      with h show ?thesis by simp
    next
      case (streaming ps)
      with h show ?thesis by simp
    qed
  qed
  have three: "after_timers (ui s) = (if in_poll s then [] else [100])"
    by (rule consistent_timers[OF c])
  have four: "after_timers (poll_queue g) = after_timers g @ [100]"
    by (simp add: poll_queue_def reschedule_def poll_loop_timers)
  have five: "log_text (poll_queue g) =
           log_text g @ lines_of (takeWhile (\<lambda>m. m \<noteq> None) (output_queue g))"
    by (simp add: poll_queue_def reschedule_def poll_loop_log)
  have six: "run_process_puts (Child lines return_code) =
           map Some lines @
             [Some ([CHR 0x0A] @ ''[process] Finished with exit code '' @
                      show_int return_code @ [CHR 0x0A]), None]"
    unfolding run_process_puts.simps finished_line_text by (rule refl)
  have seven: "0 \<le> return_code \<longrightarrow>
            list_all is_digit (show_int return_code) \<and>
            digits_val (show_int return_code) = return_code \<and>
            (hd (show_int return_code) = CHR ''0'' \<longrightarrow> return_code = 0)"
    using show_int_nonneg[of return_code] by blast
  have eight: "return_code < 0 \<longrightarrow>
            hd (show_int return_code) = CHR ''-'' \<and>
            list_all is_digit (tl (show_int return_code)) \<and>
            digits_val (tl (show_int return_code)) = - return_code \<and>
            hd (tl (show_int return_code)) \<noteq> CHR ''0''"
    using show_int_neg[of return_code] by blast
  from one two three four five six seven eight show ?thesis by (intro conjI)
qed

lemma at_most_one_worker:
  assumes "reachable sys_executable base_dir s"
  shows "length (workers s) \<le> 1 \<and> (workers s \<noteq> [] \<longrightarrow> running (ui s))"
  using reachable_consistent[OF assms]
  by (cases rule: consistent_cases) simp_all

lemma run_analysis_while_running:
  "running g \<Longrightarrow> snd (run_analysis exists base_dir g) = False \<and>
     running (fst (run_analysis exists base_dir g))"
  by (simp add: run_analysis_def)

lemma run_analysis_sets_flag:
  "snd (run_analysis exists base_dir g) \<Longrightarrow>
     running (fst (run_analysis exists base_dir g)) \<and>
     run_button (fst (run_analysis exists base_dir g)) = Disabled"
  using run_analysis_started[of exists base_dir g] by simp

lemma select_file_keeps_flag: "running (select_file path g) = running g"
  by (simp add: select_file_def)

lemma poll_iteration_clears_flag:
  "running g \<Longrightarrow> \<not> running (fst (poll_iteration g)) \<Longrightarrow>
     (\<exists>rest. output_queue g = None # rest \<and> output_queue (fst (poll_iteration g)) = rest \<and>
        run_button (fst (poll_iteration g)) = Normal)"
  by (auto simp: poll_iteration_def split: list.splits option.splits)

lemma flag_cleared_by_sentinel:
  assumes "step sys_executable base_dir s s'" "running (ui s)" "\<not> running (ui s')"
  shows "in_poll s \<and> (\<exists>rest. output_queue (ui s) = None # rest) \<and>
         run_button (ui s') = Normal"
  using assms(1)
proof (cases rule: step.cases)
  case (user_selects path)
  with assms(2,3) show ?thesis by (simp add: select_file_keeps_flag)
next
  case (user_clicks_run exists)
  with assms(2,3) run_analysis_while_running[OF assms(2), of exists base_dir]
  show ?thesis by (simp add: click_run_def split_beta)
next
  case (timer_fires d ds)
  with assms(2,3) show ?thesis by simp
next
  case poll_takes
  with assms(2,3) have "\<not> running (fst (poll_iteration (ui s)))"
    by (auto simp: poll_step_def split_beta reschedule_def split: if_splits)
  from poll_iteration_clears_flag[OF assms(2) this] poll_takes show ?thesis
    by (auto simp: poll_step_def split_beta reschedule_def poll_iteration_def)
next
  case (worker_spawns ws ws' result)
  with assms(2,3) show ?thesis by simp
next
  case (worker_puts ws m ms ws')
  with assms(2,3) show ?thesis by (simp add: put_def)
qed

lemma audio_path_poll_step: "audio_path (ui (poll_step s)) = audio_path (ui s)"
  by (simp add: poll_step_def poll_iteration_def reschedule_def split_beta
      split: list.splits option.splits)

lemma workers_poll_step: "workers (poll_step s) = workers s"
  by (simp add: poll_step_def split_beta)

lemma spawned_poll_step: "spawned (poll_step s) = spawned s"
  by (simp add: poll_step_def split_beta)

lemma audio_path_select:
  "(\<exists>p. audio_path g = Some p \<and> p \<noteq> []) \<Longrightarrow>
   (\<exists>p. audio_path (select_file path g) = Some p \<and> p \<noteq> [])"
  by (simp add: select_file_def)

lemma spawn_ok_step:
  assumes "spawn_ok sys_executable s" "step sys_executable base_dir s s'"
  shows "spawn_ok sys_executable s'"
  using assms(2)
proof (cases rule: step.cases)
  case (user_selects path)
  with assms(1) show ?thesis
    by (auto simp: spawn_ok_def select_file_def)
next
  case (user_clicks_run exists)
  show ?thesis
  proof (cases "snd (run_analysis exists base_dir (ui s))")
    case True
    then have a: "audio_path (ui s) \<noteq> None" "audio_path (ui s) \<noteq> Some []"
      by (auto simp: run_analysis_def split: if_splits)
    from run_analysis_started[OF True]
    have g: "fst (run_analysis exists base_dir (ui s)) =
       (ui s)\<lparr>log_text := [], running := True, run_button := Disabled\<rparr>" by blast
    from a obtain p where p: "audio_path (ui s) = Some p" "p \<noteq> []" by auto
    from assms(1) p show ?thesis
      unfolding user_clicks_run
      by (simp add: spawn_ok_def click_run_def split_beta g True)
  next
    case False
    from run_analysis_not_started[OF False] obtain ds where
      g: "fst (run_analysis exists base_dir (ui s)) = (ui s)\<lparr>dialogs := ds\<rparr>" by blast
    from assms(1) show ?thesis
      unfolding user_clicks_run
      by (simp add: spawn_ok_def click_run_def split_beta g False)
  qed
next
  case (timer_fires d ds)
  with assms(1) show ?thesis by (simp add: spawn_ok_def)
next
  case poll_takes
  with assms(1) show ?thesis
    by (simp add: spawn_ok_def audio_path_poll_step workers_poll_step spawned_poll_step)
next
  case (worker_spawns ws ws' result)
  with assms(1) obtain p where p: "audio_path (ui s) = Some p" "p \<noteq> []"
    by (auto simp: spawn_ok_def)
  from assms(1) worker_spawns p show ?thesis
    by (auto simp: spawn_ok_def run_process_cmd_def)
next
  case (worker_puts ws m ms ws')
  with assms(1) show ?thesis
    by (auto simp: spawn_ok_def put_def split: if_splits)
qed

lemma spawned_commands:
  assumes "reachable sys_executable base_dir s"
  shows "\<forall>cmd \<in> set (spawned s). \<exists>p. p \<noteq> [] \<and>
        cmd = [Some sys_executable, Some ''run.py'', Some ''--audio'', Some p]"
proof -
  from assms have "spawn_ok sys_executable s"
  proof (induction rule: reachable.induct)
    case start
    show ?case by (simp add: spawn_ok_def init_system_def)
  next
    case (after_step s s')
    from spawn_ok_step[OF after_step.IH after_step.hyps(2)] show ?case .
  qed
  then show ?thesis by (simp add: spawn_ok_def)
qed

section \<open>Runs of the GUI\<close>

lemma show_int_1: "show_int 1 = ''1''"
  by (simp add: show_int_def show_nat_1 digit_char_Suc_0)

lemma show_int_minus_9: "show_int (- 9) = ''-9''"
  by (simp add: show_int_def show_nat_1 digit_chars)

lemma finished_line_1:
  "finished_line 1 = [CHR 0x0A] @ ''[process] Finished with exit code 1'' @ [CHR 0x0A]"
  by (simp add: finished_line_def show_int_1)

lemma one_run_finishes:
  "run_actions ''python3'' ''/app'' one_run init_system = Some finished_run"
  by (simp add: one_run_def init_system_def init_gui_def finished_run_def do_action_def
      select_file_def click_run_def run_analysis_def RUN_SCRIPT_def poll_step_def
      poll_iteration_def reschedule_def put_def run_process_cmd_def finished_line_1)

theorem log_follows_child_output_witness:
  "reachable ''python3'' ''/app'' finished_run \<and>
   last_run finished_run =
     Some (Child [''Traceback'' @ [CHR 0x0A], ''KeyError'' @ [CHR 0x0A]] 1) \<and>
   \<not> running (ui finished_run) \<and>
   Starting \<notin> set (workers finished_run) \<and>
   log_text (ui finished_run) =
     ''Traceback'' @ [CHR 0x0A] @ ''KeyError'' @ [CHR 0x0A] @ [CHR 0x0A] @
     ''[process] Finished with exit code 1'' @ [CHR 0x0A] \<and>
   log_text (ui finished_run) @ lines_of (output_queue (ui finished_run)) @
     lines_of (unsent (workers finished_run)) =
     ''Traceback'' @ [CHR 0x0A] @ ''KeyError'' @ [CHR 0x0A] @ [CHR 0x0A] @
     ''[process] Finished with exit code 1'' @ [CHR 0x0A] \<and>
   after_timers (ui finished_run) = [100] \<and>
   (0::int) \<le> 1 \<and> show_int 1 = ''1'' \<and> list_all is_digit (show_int 1) \<and>
   digits_val (show_int 1) = 1 \<and>
   (- 9 :: int) < 0 \<and> show_int (- 9) = ''-9'' \<and> hd (show_int (- 9)) = CHR ''-'' \<and>
   list_all is_digit (tl (show_int (- 9))) \<and> digits_val (tl (show_int (- 9))) = 9"
proof -
  have r: "reachable ''python3'' ''/app'' finished_run"
    by (rule run_actions_reachable[OF reachable.start one_run_finishes])
  have l: "last_run finished_run =
      Some (Child [''Traceback'' @ [CHR 0x0A], ''KeyError'' @ [CHR 0x0A]] 1)"
    by (simp add: finished_run_def)
  have n: "\<not> running (ui finished_run)" "Starting \<notin> set (workers finished_run)"
    "\<not> in_poll finished_run"
    by (simp_all add: finished_run_def)
  have q: "output_queue (ui finished_run) = []" "workers finished_run = []"
    by (simp_all add: finished_run_def)
  from log_follows_child_output[OF r,
      of "[''Traceback'' @ [CHR 0x0A], ''KeyError'' @ [CHR 0x0A]]" 1] l n r
  have one: "log_text (ui finished_run) =
     ''Traceback'' @ [CHR 0x0A] @ ''KeyError'' @ [CHR 0x0A] @ [CHR 0x0A] @
     ''[process] Finished with exit code 1'' @ [CHR 0x0A] \<and>
    after_timers (ui finished_run) = [100] \<and>
    list_all is_digit (show_int 1) \<and> digits_val (show_int 1) = 1"
    by (simp add: show_int_1)
  from log_follows_child_output[OF r, of _ "- 9"]
  have two: "hd (show_int (- 9)) = CHR ''-'' \<and>
   list_all is_digit (tl (show_int (- 9))) \<and> digits_val (tl (show_int (- 9))) = 9"
    by simp
  from one two r l n q show ?thesis
    by (simp add: show_int_1 show_int_minus_9)
qed

text \<open>
  Claim C7 as stated fails for a child whose output does not decode as text: the worker
  dies in its loop over \<open>process.stdout\<close>. In the run below the line the child wrote
  never reaches the queue or the log, no finished line follows, and with no sentinel the
  flag stays set and the Run button disabled: a later poll finds the queue empty and
  leaves the state as it is, and \<open>run_analysis\<close> returns at once.
\<close>

theorem worker_dies_on_undecodable_output:
  "run_actions ''python3'' ''/app'' undecodable_run init_system = Some stuck_run \<and>
   reachable ''python3'' ''/app'' stuck_run \<and>
   last_run stuck_run = Some (ReadFailed [''Saved JSON'' @ [CHR 0x0A]] 0) \<and>
   workers stuck_run = [] \<and>
   output_queue (ui stuck_run) = [] \<and>
   log_text (ui stuck_run) = [] \<and>
   running (ui stuck_run) \<and>
   run_button (ui stuck_run) = Disabled \<and>
   run_actions ''python3'' ''/app'' [Fire, Poll] stuck_run = Some stuck_run \<and>
   run_actions ''python3'' ''/app'' [Click] stuck_run = Some stuck_run"
proof -
  have a: "run_actions ''python3'' ''/app'' undecodable_run init_system = Some stuck_run"
    by (simp add: undecodable_run_def init_system_def init_gui_def stuck_run_def do_action_def
        select_file_def click_run_def run_analysis_def RUN_SCRIPT_def poll_step_def
        poll_iteration_def reschedule_def run_process_cmd_def)
  have r: "reachable ''python3'' ''/app'' stuck_run"
    by (rule run_actions_reachable[OF reachable.start a])
  have b: "run_actions ''python3'' ''/app'' [Fire, Poll] stuck_run = Some stuck_run"
    by (simp add: stuck_run_def do_action_def poll_step_def poll_iteration_def reschedule_def)
  have c: "run_actions ''python3'' ''/app'' [Click] stuck_run = Some stuck_run"
    by (simp add: stuck_run_def do_action_def click_run_def run_analysis_def RUN_SCRIPT_def)
  have d: "last_run stuck_run = Some (ReadFailed [''Saved JSON'' @ [CHR 0x0A]] 0)"
    "workers stuck_run = []" "output_queue (ui stuck_run) = []" "log_text (ui stuck_run) = []"
    "running (ui stuck_run)" "run_button (ui stuck_run) = Disabled"
    by (simp_all add: stuck_run_def)
  from a r b c d show ?thesis by (intro conjI)
qed

text \<open>
  Claim C10 at a file selected during a run: \<open>run_analysis\<close> starts the worker with the
  flag set and the Run button disabled, and \<open>select_file\<close> then enables the button again
  while the flag is set and no sentinel has been taken from the queue. The rest of the
  claim holds: \<open>at_most_one_worker\<close> (no more than one worker in any reachable state, and
  the flag set while there is one), \<open>run_analysis_while_running\<close>, \<open>run_analysis_sets_flag\<close>
  and \<open>flag_cleared_by_sentinel\<close> (only the poll that takes the sentinel clears the flag,
  and it enables the button).
\<close>

theorem select_file_enables_run_while_running:
  "snd (run_analysis (\<lambda>p. True) ''/app'' (select_file ''/tmp/take1.wav'' init_gui)) \<and>
   running (fst (run_analysis (\<lambda>p. True) ''/app'' (select_file ''/tmp/take1.wav'' init_gui))) \<and>
   run_button (fst (run_analysis (\<lambda>p. True) ''/app'' (select_file ''/tmp/take1.wav'' init_gui)))
     = Disabled \<and>
   running (select_file ''/tmp/take2.wav''
     (fst (run_analysis (\<lambda>p. True) ''/app'' (select_file ''/tmp/take1.wav'' init_gui)))) \<and>
   run_button (select_file ''/tmp/take2.wav''
     (fst (run_analysis (\<lambda>p. True) ''/app'' (select_file ''/tmp/take1.wav'' init_gui))))
     = Normal \<and>
   output_queue (select_file ''/tmp/take2.wav''
     (fst (run_analysis (\<lambda>p. True) ''/app'' (select_file ''/tmp/take1.wav'' init_gui)))) = []"
  by (simp add: run_analysis_def select_file_def init_gui_def)

text \<open>
  Claim C4 at a selected file \<open>/tmp/take1.wav\<close>: the command the worker hands to \<open>Popen\<close>
  names the script \<open>run.py\<close> (\<open>spawned_commands\<close>: so does every command of every
  reachable state, with the selected path after \<open>--audio\<close>); where no \<open>run.py\<close> exists
  beside the GUI, \<open>run_analysis\<close> shows the Missing Script error and starts nothing; and
  the command-line tool, which reads no argument, looks for \<open>sample.wav\<close>: run where only
  the selected file exists, it exits with the message that \<open>sample.wav\<close> was not found.
\<close>

theorem gui_command_is_not_the_tool:
  "run_process_cmd ''python3'' (select_file ''/tmp/take1.wav'' init_gui) =
     [Some ''python3'', Some ''run.py'', Some ''--audio'', Some ''/tmp/take1.wav''] \<and>
   snd (run_analysis (\<lambda>p. p \<noteq> ''/app/run.py'') ''/app''
          (select_file ''/tmp/take1.wav'' init_gui)) = False \<and>
   dialogs (fst (run_analysis (\<lambda>p. p \<noteq> ''/app/run.py'') ''/app''
          (select_file ''/tmp/take1.wav'' init_gui))) =
     [ShowError ''Missing Script'' ''Could not find run.py at /app/run.py''] \<and>
   fs selected_only ''/tmp/take1.wav'' = Some (File ''Man'') \<and>
   AUDIO_PATH = ''sample.wav'' \<and>
   main json_loads selected_only =
     (SysExit (Message ''[!] Audio file not found: /home/user/sample.wav''), initial_world)"
proof -
  have a: "run_process_cmd ''python3'' (select_file ''/tmp/take1.wav'' init_gui) =
     [Some ''python3'', Some ''run.py'', Some ''--audio'', Some ''/tmp/take1.wav'']"
    by (simp add: run_process_cmd_def select_file_def init_gui_def)
  have b: "run_analysis (\<lambda>p. p \<noteq> ''/app/run.py'') ''/app''
          (select_file ''/tmp/take1.wav'' init_gui) =
       ((select_file ''/tmp/take1.wav'' init_gui)
          \<lparr>dialogs := [ShowError ''Missing Script'' ''Could not find run.py at /app/run.py'']\<rparr>,
        False)"
    by (simp add: run_analysis_def RUN_SCRIPT_def select_file_def init_gui_def)
  have c: "fs selected_only ''/tmp/take1.wav'' = Some (File ''Man'')"
    "fs selected_only AUDIO_PATH = None"
    "resolve selected_only AUDIO_PATH = ''/home/user/sample.wav''"
    "environ selected_only ''OPENAI_API_KEY'' = Some ''sk-test''"
    by (simp_all add: selected_only_def example_env_def AUDIO_PATH_def)
  have d: "main json_loads selected_only =
     (SysExit (Message ''[!] Audio file not found: /home/user/sample.wav''), initial_world)"
    using c by (simp add: main_def encode_audio_for_api_def)
  from a b c(1) d show ?thesis by (simp add: AUDIO_PATH_def)
qed

end
